theory Spec2Isabelle
  imports Main "HOL-Library.AList" "HOL-Library.Multiset" "HOL-Library.Sublist" "HOL-Library.Word"
begin

section \<open>Data model of \<^verbatim>\<open>background.ts\<close>\<close>

text \<open>
  The background script keeps its request records as plain JavaScript objects. A header
  map is an object used as a dictionary: an association list, one pair per key, a new key
  going to the end. (JavaScript enumerates the keys that are canonical array indices
  first, in ascending order; what is stated about header maps below is stated about
  their content, \<open>map_of\<close>, never about the order of the keys.) A text is the list of
  the bytes of its UTF-8 encoding. A record object has the fixed property \<^verbatim>\<open>id\<close> and
  optional properties; an absent property is \<open>None\<close>. The two header properties hold
  references to header-map objects, so the record type is parameterised by what a header
  property holds: an address (\<open>nat\<close>) for an object of the script's heap, the map itself
  for a record that went through \<^verbatim>\<open>chrome.storage\<close> (which serialises its argument).
\<close>

type_synonym hdrmap = "(string \<times> string) list"

type_synonym formdata = "(string \<times> string list) list"

datatype body = BodyText string | BodyForm formdata

record 'h log =
  log_id :: string
  url :: "string option"
  req_method :: "string option"
  rtype :: "string option"
  status :: "int option"
  timestamp :: "nat option"
  requestHeaders :: "'h option"
  responseHeaders :: "'h option"
  requestBody :: "body option"
  error :: "string option"

type_synonym slog = "hdrmap log"

definition MAX_LOGS :: nat where
  "MAX_LOGS = 100"

text \<open>\<^verbatim>\<open>{ ...a, ...b }\<close> on one property: the value of \<open>b\<close> when \<open>b\<close> has the property.\<close>

definition over :: "'a option \<Rightarrow> 'a option \<Rightarrow> 'a option" where
  "over a b = (case b of Some v \<Rightarrow> Some v | None \<Rightarrow> a)"

text \<open>\<^verbatim>\<open>{ ...a, ...b }\<close> on two record objects.\<close>

definition spread :: "'h log \<Rightarrow> 'h log \<Rightarrow> 'h log" where
  "spread a b =
     \<lparr> log_id = log_id b,
       url = over (url a) (url b),
       req_method = over (req_method a) (req_method b),
       rtype = over (rtype a) (rtype b),
       status = over (status a) (status b),
       timestamp = over (timestamp a) (timestamp b),
       requestHeaders = over (requestHeaders a) (requestHeaders b),
       responseHeaders = over (responseHeaders a) (responseHeaders b),
       requestBody = over (requestBody a) (requestBody b),
       error = over (error a) (error b) \<rparr>"

text \<open>\<^verbatim>\<open>{ ...a, ...b }\<close> on two header maps: the keys of \<open>a\<close> keep their place, a key of
  \<open>b\<close> overrides or is added at the end.\<close>

definition assign :: "hdrmap \<Rightarrow> hdrmap \<Rightarrow> hdrmap" where
  "assign a b = foldl (\<lambda>m (k, v). AList.update k v m) a b"

text \<open>\<^verbatim>\<open>xs.findIndex(p)\<close>; \<open>None\<close> is the result \<^verbatim>\<open>-1\<close>.\<close>

fun findIndex :: "('a \<Rightarrow> bool) \<Rightarrow> 'a list \<Rightarrow> nat option" where
  "findIndex p [] = None"
| "findIndex p (x # xs) = (if p x then Some 0 else map_option Suc (findIndex p xs))"

text \<open>\<^verbatim>\<open>!s\<close> for an optional string: absent or empty.\<close>

definition falsy :: "string option \<Rightarrow> bool" where
  "falsy s = (case s of None \<Rightarrow> True | Some v \<Rightarrow> v = [])"

text \<open>
  The computation of \<^verbatim>\<open>newLogs\<close> in the storage callback of \<^verbatim>\<open>processQueue\<close>
  (lines 97 to 113). \<open>None\<close> is the early return of line 110: nothing is written.
\<close>

definition mergeLog :: "slog list \<Rightarrow> slog \<Rightarrow> slog list option" where
  "mergeLog currentLogs logToSave =
     (case findIndex (\<lambda>l. log_id l = log_id logToSave) currentLogs of
        Some idx \<Rightarrow> Some (currentLogs[idx := spread (currentLogs ! idx) logToSave])
      | None \<Rightarrow>
          if falsy (url logToSave) then None
          else Some (take MAX_LOGS (logToSave # currentLogs)))"

text \<open>What one pass leaves in the store: a dropped record leaves it as it was.\<close>

definition applyLog :: "slog list \<Rightarrow> slog \<Rightarrow> slog list" where
  "applyLog currentLogs logToSave =
     (case mergeLog currentLogs logToSave of None \<Rightarrow> currentLogs | Some newLogs \<Rightarrow> newLogs)"


section \<open>The correlator and the write serializer as a transition system\<close>

subsection \<open>What the host passes to the listeners\<close>

type_synonym byte = "8 word"

record upload =
  bytes :: "byte list option"
  u_file :: "string option"

record reqbody =
  raw :: "upload list option"
  formData :: "formdata option"

record hdr =
  h_name :: string
  h_value :: "string option"

text \<open>The \<^verbatim>\<open>details\<close> argument of the \<^verbatim>\<open>chrome.webRequest\<close> listeners.\<close>

record details =
  requestId :: string
  d_url :: string
  d_method :: string
  d_type :: string
  initiator :: "string option"
  d_requestBody :: "reqbody option"
  d_requestHeaders :: "hdr list option"
  d_responseHeaders :: "hdr list option"
  statusCode :: int
  d_error :: string

text \<open>
  Two things of the host are parameters: the extension's id (\<^verbatim>\<open>chrome.runtime.id\<close>) and
  \<^verbatim>\<open>TextDecoder.decode\<close>, which gets the \<^verbatim>\<open>bytes\<close> property (possibly absent) and
  returns the text, or \<open>None\<close> when it throws: the call is inside \<^verbatim>\<open>try\<close>.
\<close>

record host =
  EXTENSION_ID :: string
  decode :: "byte list option \<Rightarrow> string option"

subsection \<open>The decoder of line 173\<close>

text \<open>
  \<^verbatim>\<open>new TextDecoder("utf-8")\<close> is built without the option \<^verbatim>\<open>fatal\<close>, so its \<^verbatim>\<open>decode\<close> is
  the UTF-8 decoder of the Encoding Standard in replacement mode: a byte that cannot
  start or continue a sequence ends the sequence with U+FFFD (the bytes EF BF BD here)
  and, when it cannot continue one, is read again as a first byte; a sequence cut off by
  the end of the input gives U+FFFD; a byte order mark at the start is dropped. A well
  formed sequence is the encoding of the code point it decodes to, so it is copied.
  \<open>utf8 needed lower upper seen\<close> is the state of that decoder: the number of
  continuation bytes still needed, the bounds for the next one, and the bytes of the
  sequence read so far.
\<close>

definition replacement :: "byte list" where
  "replacement = [0xEF, 0xBF, 0xBD]"

fun utf8 :: "nat \<Rightarrow> byte \<Rightarrow> byte \<Rightarrow> byte list \<Rightarrow> byte list \<Rightarrow> byte list" where
  "utf8 needed lower upper seen [] = (if needed = 0 then [] else replacement)"
| "utf8 needed lower upper seen (b # bs) =
     (if needed = 0 then
        (if b \<le> 0x7F then b # utf8 0 0x80 0xBF [] bs
         else if 0xC2 \<le> b \<and> b \<le> 0xDF then utf8 1 0x80 0xBF [b] bs
         else if 0xE0 \<le> b \<and> b \<le> 0xEF then
           utf8 2 (if b = 0xE0 then 0xA0 else 0x80) (if b = 0xED then 0x9F else 0xBF) [b] bs
         else if 0xF0 \<le> b \<and> b \<le> 0xF4 then
           utf8 3 (if b = 0xF0 then 0x90 else 0x80) (if b = 0xF4 then 0x8F else 0xBF) [b] bs
         else replacement @ utf8 0 0x80 0xBF [] bs)
      else if b < lower \<or> upper < b then replacement @ utf8 0 0x80 0xBF [] (b # bs)
      else if needed = 1 then seen @ [b] @ utf8 0 0x80 0xBF [] bs
      else utf8 (needed - 1) 0x80 0xBF (seen @ [b]) bs)"

definition text_of :: "byte list \<Rightarrow> string" where
  "text_of bs = map (\<lambda>w. char_of (unat w)) bs"

text \<open>\<^verbatim>\<open>enc.decode(bytes)\<close>; an absent argument decodes to the empty text.\<close>

definition utf8_decode :: "byte list option \<Rightarrow> string option" where
  "utf8_decode b =
     (let bs = (case b of None \<Rightarrow> [] | Some l \<Rightarrow> l);
          bs' = (if take 3 bs = [0xEF, 0xBB, 0xBF] then drop 3 bs else bs)
      in Some (text_of (utf8 0 0x80 0xBF [] bs')))"

subsection \<open>State\<close>

text \<open>
  The listeners that read the recording toggle continue in a storage callback; the
  continuation is the listener and its \<^verbatim>\<open>details\<close>.
\<close>

datatype cont =
  CBeforeRequest details
| CBeforeSendHeaders details
| CHeadersReceived details

text \<open>
  An asynchronous storage call whose callback has not run yet: the read of
  \<^verbatim>\<open>isRecording\<close> of a listener, the read of \<^verbatim>\<open>logs\<close> of \<^verbatim>\<open>processQueue\<close> (its closure
  holds \<^verbatim>\<open>logToSave\<close>, an address), and the write of \<^verbatim>\<open>newLogs\<close> (same closure).
\<close>

datatype op =
  GetRecording cont
| GetLogs nat
| SetLogs nat "slog list"

datatype handler =
  HBeforeRequest | HBeforeSendHeaders | HHeadersReceived | HCompleted | HErrorOccurred

text \<open>
  The state: the script's heap (record objects and header-map objects, an address is an
  index, objects are never freed), its three globals, the host's pending storage calls
  and timers, and the two keys of \<^verbatim>\<open>chrome.storage.local\<close>. The last three fields are
  history variables, written but never read by a transition: the snapshots passed to
  the queue, the snapshots whose pass has ended, and the listener bodies that ran.
\<close>

record engine =
  objs :: "nat log list"
  hmaps :: "hdrmap list"
  pendingRequests :: "string \<rightharpoonup> nat"
  isSaving :: bool
  saveQueue :: "nat list"
  inflight :: "op list"
  timers :: "string list"
  isRecording :: bool
  logs :: "slog list option"
  enqueued :: "nat list"
  processed :: "nat list"
  handled :: "(handler \<times> details) list"

text \<open>The state \<^verbatim>\<open>onInstalled\<close> leaves: recording off, no logs.\<close>

definition installed :: engine where
  "installed =
     \<lparr> objs = [], hmaps = [], pendingRequests = Map.empty, isSaving = False,
       saveQueue = [], inflight = [], timers = [], isRecording = False,
       logs = Some [], enqueued = [], processed = [], handled = [] \<rparr>"

text \<open>What a record object is when serialised: its header references followed.\<close>

definition resolve :: "hdrmap list \<Rightarrow> nat log \<Rightarrow> slog" where
  "resolve ms l =
     \<lparr> log_id = log_id l, url = url l, req_method = req_method l, rtype = rtype l,
       status = status l, timestamp = timestamp l,
       requestHeaders = map_option (\<lambda>r. ms ! r) (requestHeaders l),
       responseHeaders = map_option (\<lambda>r. ms ! r) (responseHeaders l),
       requestBody = requestBody l, error = error l \<rparr>"

definition deref :: "engine \<Rightarrow> nat \<Rightarrow> slog" where
  "deref s a = resolve (hmaps s) (objs s ! a)"

text \<open>An assignment to properties of the object at an address.\<close>

definition modify :: "nat \<Rightarrow> (nat log \<Rightarrow> nat log) \<Rightarrow> engine \<Rightarrow> engine" where
  "modify a f s = s\<lparr>objs := (objs s)[a := f (objs s ! a)]\<rparr>"

definition issue :: "op \<Rightarrow> engine \<Rightarrow> engine" where
  "issue x s = s\<lparr>inflight := inflight s @ [x]\<rparr>"

definition mark :: "handler \<Rightarrow> details \<Rightarrow> engine \<Rightarrow> engine" where
  "mark k d s = s\<lparr>handled := handled s @ [(k, d)]\<rparr>"

subsection \<open>The storage queue (lines 87 to 125)\<close>

definition processQueue :: "engine \<Rightarrow> engine" where
  "processQueue s =
     (case saveQueue s of
        [] \<Rightarrow> s
      | logToSave # rest \<Rightarrow>
          if isSaving s then s
          else issue (GetLogs logToSave) (s\<lparr>isSaving := True, saveQueue := rest\<rparr>))"

text \<open>\<^verbatim>\<open>result.logs || []\<close>.\<close>

definition currentLogs :: "engine \<Rightarrow> slog list" where
  "currentLogs s = (case logs s of None \<Rightarrow> [] | Some l \<Rightarrow> l)"

text \<open>The callback of \<^verbatim>\<open>chrome.storage.local.get(['logs'], ...)\<close>.\<close>

definition onGetLogs :: "nat \<Rightarrow> engine \<Rightarrow> engine" where
  "onGetLogs a s =
     (let logToSave = deref s a
      in case mergeLog (currentLogs s) logToSave of
           None \<Rightarrow>
             (let s1 = s\<lparr>isSaving := False, processed := processed s @ [a]\<rparr>
              in if saveQueue s1 \<noteq> [] then processQueue s1 else s1)
         | Some newLogs \<Rightarrow> issue (SetLogs a newLogs) s)"

text \<open>The write of \<^verbatim>\<open>chrome.storage.local.set({ logs: newLogs }, ...)\<close> and its callback.\<close>

definition onSetLogs :: "nat \<Rightarrow> slog list \<Rightarrow> engine \<Rightarrow> engine" where
  "onSetLogs a newLogs s =
     (let s1 = s\<lparr>logs := Some newLogs, isSaving := False, processed := processed s @ [a]\<rparr>
      in if saveQueue s1 \<noteq> [] then processQueue s1 else s1)"

text \<open>\<^verbatim>\<open>saveLog\<close>: the copy \<^verbatim>\<open>{ ...log }\<close> is a new object with the same property values,
  header references included.\<close>

definition saveLog :: "nat \<Rightarrow> engine \<Rightarrow> engine" where
  "saveLog a s =
     (let c = length (objs s)
      in processQueue
           (s\<lparr>objs := objs s @ [objs s ! a],
              saveQueue := saveQueue s @ [c],
              enqueued := enqueued s @ [c]\<rparr>))"

subsection \<open>The filters and the pending table (lines 127 to 156)\<close>

definition isExtensionRequest :: "host \<Rightarrow> details \<Rightarrow> bool" where
  "isExtensionRequest h d =
     ((case initiator d of None \<Rightarrow> False | Some i \<Rightarrow> sublist (EXTENSION_ID h) i)
      \<or> prefix ''chrome-extension://'' (d_url d)
      \<or> prefix ''data:'' (d_url d)
      \<or> prefix ''blob:'' (d_url d))"

definition isApiRequest :: "details \<Rightarrow> bool" where
  "isApiRequest d = (d_type d = ''xmlhttprequest'')"

definition getOrCreatePending :: "string \<Rightarrow> nat \<Rightarrow> engine \<Rightarrow> nat \<times> engine" where
  "getOrCreatePending rid now s =
     (case pendingRequests s rid of
        Some a \<Rightarrow> (a, s)
      | None \<Rightarrow>
          (let r = length (hmaps s); a = length (objs s)
           in (a, s\<lparr>hmaps := hmaps s @ [[], []],
                    objs := objs s @
                      [\<lparr> log_id = rid, url = None, req_method = None, rtype = None,
                         status = Some 0, timestamp = Some now,
                         requestHeaders = Some r, responseHeaders = Some (Suc r),
                         requestBody = None, error = None \<rparr>],
                    pendingRequests := (pendingRequests s)(rid \<mapsto> a)\<rparr>)))"

subsection \<open>The listeners (lines 158 to 253)\<close>

text \<open>Lines 171 to 179: the request body.\<close>

definition setBody :: "host \<Rightarrow> details \<Rightarrow> 'h log \<Rightarrow> 'h log" where
  "setBody h d l =
     (case d_requestBody d of
        None \<Rightarrow> l
      | Some rb \<Rightarrow>
          (case raw rb of
             Some (u # us) \<Rightarrow>
               (case decode h (bytes u) of
                  Some t \<Rightarrow> l\<lparr>requestBody := Some (BodyText t)\<rparr>
                | None \<Rightarrow> l\<lparr>requestBody := Some (BodyText ''[Binary Data]'')\<rparr>)
           | _ \<Rightarrow>
               (case formData rb of
                  Some f \<Rightarrow> l\<lparr>requestBody := Some (BodyForm f)\<rparr>
                | None \<Rightarrow> l)))"

text \<open>
  \<^verbatim>\<open>hs?.forEach((h) => { headers[h.name] = h.value || ''; })\<close> on an empty object. The
  object is a plain one, so the assignment to the key \<^verbatim>\<open>__proto__\<close> goes to the setter of
  \<^verbatim>\<open>Object.prototype\<close>, which ignores a text: a header with that name is not collected.
\<close>

definition collect :: "hdr list option \<Rightarrow> hdrmap" where
  "collect hs =
     (case hs of
        None \<Rightarrow> []
      | Some l \<Rightarrow>
          foldl (\<lambda>m h. if h_name h = ''__proto__'' then m
                       else AList.update (h_name h)
                              (case h_value h of None \<Rightarrow> [] | Some v \<Rightarrow> v) m)
            [] l)"

definition onBeforeRequest :: "host \<Rightarrow> details \<Rightarrow> engine \<Rightarrow> engine" where
  "onBeforeRequest h d s =
     (if isExtensionRequest h d \<or> d_type d = ''ping'' \<or> \<not> isApiRequest d then s
      else issue (GetRecording (CBeforeRequest d)) s)"

definition onBeforeRequest_cb :: "host \<Rightarrow> details \<Rightarrow> nat \<Rightarrow> engine \<Rightarrow> engine" where
  "onBeforeRequest_cb h d now s =
     (if \<not> isRecording s then s
      else case getOrCreatePending (requestId d) now s of
        (a, s1) \<Rightarrow>
          saveLog a
            (modify a
               (\<lambda>l. setBody h d
                  (l\<lparr>url := Some (d_url d), req_method := Some (d_method d),
                     rtype := Some (d_type d)\<rparr>))
               (mark HBeforeRequest d s1)))"

definition onBeforeSendHeaders :: "host \<Rightarrow> details \<Rightarrow> engine \<Rightarrow> engine" where
  "onBeforeSendHeaders h d s =
     (if isExtensionRequest h d \<or> \<not> isApiRequest d then s
      else issue (GetRecording (CBeforeSendHeaders d)) s)"

definition onBeforeSendHeaders_cb :: "details \<Rightarrow> nat \<Rightarrow> engine \<Rightarrow> engine" where
  "onBeforeSendHeaders_cb d now s =
     (if \<not> isRecording s then s
      else case getOrCreatePending (requestId d) now s of
        (a, s1) \<Rightarrow>
          (let headers = collect (d_requestHeaders d);
               old = (case requestHeaders (objs s1 ! a) of
                        None \<Rightarrow> [] | Some r \<Rightarrow> hmaps s1 ! r);
               r' = length (hmaps s1)
           in saveLog a
                (modify a (\<lambda>l. l\<lparr>requestHeaders := Some r'\<rparr>)
                   (mark HBeforeSendHeaders d
                      (s1\<lparr>hmaps := hmaps s1 @ [assign old headers]\<rparr>)))))"

definition onHeadersReceived :: "host \<Rightarrow> details \<Rightarrow> engine \<Rightarrow> engine" where
  "onHeadersReceived h d s =
     (if isExtensionRequest h d \<or> \<not> isApiRequest d then s
      else issue (GetRecording (CHeadersReceived d)) s)"

definition onHeadersReceived_cb :: "details \<Rightarrow> nat \<Rightarrow> engine \<Rightarrow> engine" where
  "onHeadersReceived_cb d now s =
     (if \<not> isRecording s then s
      else case getOrCreatePending (requestId d) now s of
        (a, s1) \<Rightarrow>
          (let headers = collect (d_responseHeaders d);
               old = (case responseHeaders (objs s1 ! a) of
                        None \<Rightarrow> [] | Some r \<Rightarrow> hmaps s1 ! r);
               r' = length (hmaps s1)
           in saveLog a
                (modify a (\<lambda>l. l\<lparr>responseHeaders := Some r'\<rparr>)
                   (mark HHeadersReceived d
                      (s1\<lparr>hmaps := hmaps s1 @ [assign old headers]\<rparr>)))))"

text \<open>\<^verbatim>\<open>onCompleted\<close>: the removal is left to a timer (\<^verbatim>\<open>setTimeout(..., 2000)\<close>).\<close>

definition onCompleted :: "details \<Rightarrow> engine \<Rightarrow> engine" where
  "onCompleted d s =
     (case pendingRequests s (requestId d) of
        None \<Rightarrow> s
      | Some a \<Rightarrow>
          if isApiRequest d then
            (let s1 = saveLog a
                        (modify a (\<lambda>l. l\<lparr>status := Some (statusCode d)\<rparr>)
                           (mark HCompleted d s))
             in s1\<lparr>timers := timers s1 @ [requestId d]\<rparr>)
          else s)"

text \<open>\<^verbatim>\<open>onErrorOccurred\<close>: the entry is deleted in the listener itself.\<close>

definition onErrorOccurred :: "details \<Rightarrow> engine \<Rightarrow> engine" where
  "onErrorOccurred d s =
     (case pendingRequests s (requestId d) of
        None \<Rightarrow> s
      | Some a \<Rightarrow>
          if isApiRequest d then
            (let s1 = saveLog a
                        (modify a (\<lambda>l. l\<lparr>status := Some 0, error := Some (d_error d)\<rparr>)
                           (mark HErrorOccurred d s))
             in s1\<lparr>pendingRequests := (pendingRequests s1)(requestId d := None)\<rparr>)
          else s)"

text \<open>The timer callback of \<^verbatim>\<open>onCompleted\<close>.\<close>

definition onTimeout :: "string \<Rightarrow> engine \<Rightarrow> engine" where
  "onTimeout rid s = s\<lparr>pendingRequests := (pendingRequests s)(rid := None)\<rparr>"

subsection \<open>Steps\<close>

text \<open>
  What can happen next: the host calls a listener, the callback of the \<open>k\<close>-th pending
  storage call runs (at the clock value \<open>now\<close>; a read sees the storage as it is then),
  the \<open>k\<close>-th pending timer fires, or the user interface writes the recording toggle.
  Any pending call or timer may be the next one, so a list of events is one
  interleaving. An index with no pending call or timer leaves the state as it is.
\<close>

datatype event =
  BeforeRequest details
| BeforeSendHeaders details
| HeadersReceived details
| Completed details
| ErrorOccurred details
| Deliver nat nat
| Timeout nat
| SetRecording bool

definition without :: "nat \<Rightarrow> 'a list \<Rightarrow> 'a list" where
  "without k xs = take k xs @ drop (Suc k) xs"

definition callback :: "host \<Rightarrow> op \<Rightarrow> nat \<Rightarrow> engine \<Rightarrow> engine" where
  "callback h x now s =
     (case x of
        GetRecording (CBeforeRequest d) \<Rightarrow> onBeforeRequest_cb h d now s
      | GetRecording (CBeforeSendHeaders d) \<Rightarrow> onBeforeSendHeaders_cb d now s
      | GetRecording (CHeadersReceived d) \<Rightarrow> onHeadersReceived_cb d now s
      | GetLogs a \<Rightarrow> onGetLogs a s
      | SetLogs a newLogs \<Rightarrow> onSetLogs a newLogs s)"

definition step :: "host \<Rightarrow> event \<Rightarrow> engine \<Rightarrow> engine" where
  "step h e s =
     (case e of
        BeforeRequest d \<Rightarrow> onBeforeRequest h d s
      | BeforeSendHeaders d \<Rightarrow> onBeforeSendHeaders h d s
      | HeadersReceived d \<Rightarrow> onHeadersReceived h d s
      | Completed d \<Rightarrow> onCompleted d s
      | ErrorOccurred d \<Rightarrow> onErrorOccurred d s
      | Deliver k now \<Rightarrow>
          if k < length (inflight s)
          then callback h (inflight s ! k) now (s\<lparr>inflight := without k (inflight s)\<rparr>)
          else s
      | Timeout k \<Rightarrow>
          if k < length (timers s)
          then onTimeout (timers s ! k) (s\<lparr>timers := without k (timers s)\<rparr>)
          else s
      | SetRecording b \<Rightarrow> s\<lparr>isRecording := b\<rparr>)"

definition run :: "host \<Rightarrow> event list \<Rightarrow> engine \<Rightarrow> engine" where
  "run h es s = foldl (\<lambda>s e. step h e s) s es"


section \<open>The override rule manager (lines 36 to 84)\<close>

datatype header_op = SET

datatype action_type = MODIFY_HEADERS

datatype resource_type = XMLHTTPREQUEST

record kv =
  kv_key :: "string option"
  kv_name :: "string option"
  kv_value :: "string option"

record modheader =
  m_header :: "string option"
  m_operation :: header_op
  m_value :: "string option"

record rule =
  r_id :: nat
  priority :: nat
  action_type :: action_type
  action_requestHeaders :: "modheader list"
  urlFilter :: string
  resourceTypes :: "resource_type list"

datatype message =
  SET_REQUEST_HEADERS string "kv list"
| CLEAR_REQUEST_HEADERS
| OtherMessage string

record response =
  success :: bool
  r_error :: "string option"

text \<open>\<^verbatim>\<open>s.split(c)\<close> for a one-character separator.\<close>

fun split_str :: "char \<Rightarrow> string \<Rightarrow> string list" where
  "split_str c [] = [[]]"
| "split_str c (x # xs) =
     (if x = c then [] # split_str c xs
      else case split_str c xs of
             [] \<Rightarrow> [[x]]
           | p # ps \<Rightarrow> (x # p) # ps)"

text \<open>Lines 40 to 63: the rule built from a \<^verbatim>\<open>SET_REQUEST_HEADERS\<close> message.\<close>

definition ruleFor :: "string \<Rightarrow> kv list \<Rightarrow> rule" where
  "ruleFor u headers =
     (let ruleId = 1;
          requestHeaders =
            map (\<lambda>h. \<lparr> m_header = (if falsy (kv_key h) then kv_name h else kv_key h),
                       m_operation = SET,
                       m_value = kv_value h \<rparr>) headers;
          cleanUrl = split_str CHR ''?'' u ! 0
      in \<lparr> r_id = ruleId, priority = 999, action_type = MODIFY_HEADERS,
           action_requestHeaders = requestHeaders, urlFilter = cleanUrl,
           resourceTypes = [XMLHTTPREQUEST] \<rparr>)"

text \<open>
  \<^verbatim>\<open>chrome.declarativeNetRequest.updateSessionRules\<close> is the host's: it removes the rules
  with the given ids, then adds the given rules, as one update, and the host applies
  the updates in the order of the calls. The host may refuse the rules to add
  (\<open>reject\<close> gives the error message); then the rule set stays as it was.
\<close>

definition updateSessionRules ::
  "(rule list \<Rightarrow> string option) \<Rightarrow> nat list \<Rightarrow> rule list \<Rightarrow> rule list \<Rightarrow> string + rule list"
where
  "updateSessionRules reject removeRuleIds addRules rules =
     (case reject addRules of
        Some err \<Rightarrow> Inl err
      | None \<Rightarrow> Inr (filter (\<lambda>r. r_id r \<notin> set removeRuleIds) rules @ addRules))"

text \<open>The message listener: the new rule set and the response sent, if any.\<close>

definition onMessage ::
  "(rule list \<Rightarrow> string option) \<Rightarrow> message \<Rightarrow> rule list \<Rightarrow> rule list \<times> response option"
where
  "onMessage reject m rules =
     (case m of
        SET_REQUEST_HEADERS u headers \<Rightarrow>
          (case updateSessionRules reject [1] [ruleFor u headers] rules of
             Inr rules' \<Rightarrow> (rules', Some \<lparr> success = True, r_error = None \<rparr>)
           | Inl err \<Rightarrow> (rules, Some \<lparr> success = False, r_error = Some err \<rparr>))
      | CLEAR_REQUEST_HEADERS \<Rightarrow>
          (case updateSessionRules reject [1] [] rules of
             Inr rules' \<Rightarrow> (rules', Some \<lparr> success = True, r_error = None \<rparr>)
           | Inl err \<Rightarrow> (rules, None))
      | OtherMessage t \<Rightarrow> (rules, None))"

text \<open>The rule set after a list of messages.\<close>

definition messages ::
  "(rule list \<Rightarrow> string option) \<Rightarrow> message list \<Rightarrow> rule list \<Rightarrow> rule list"
where
  "messages reject ms rules = foldl (\<lambda>rs m. fst (onMessage reject m rs)) rules ms"

section \<open>Invariants of the reachable states\<close>

text \<open>
  The heap is well formed: a pending entry is an object of the heap that carries its
  key as \<^verbatim>\<open>id\<close> and is not a snapshot; a snapshot is an object of the heap; a header
  reference of an object is a header map of the heap.
\<close>

definition heap_ok :: "engine \<Rightarrow> bool" where
  "heap_ok s =
     ((\<forall>rid a. pendingRequests s rid = Some a \<longrightarrow>
          a < length (objs s) \<and> log_id (objs s ! a) = rid \<and> a \<notin> set (enqueued s))
      \<and> (\<forall>a\<in>set (enqueued s). a < length (objs s))
      \<and> (\<forall>a r. a < length (objs s) \<longrightarrow>
            (requestHeaders (objs s ! a) = Some r \<or> responseHeaders (objs s ! a) = Some r) \<longrightarrow>
            r < length (hmaps s)))"

text \<open>
  A later heap extends an earlier one: the snapshots and the header maps of the earlier
  heap are still there, unchanged.
\<close>

definition extends :: "engine \<Rightarrow> engine \<Rightarrow> bool" where
  "extends s s' =
     (length (objs s) \<le> length (objs s')
      \<and> (\<forall>a\<in>set (enqueued s). objs s' ! a = objs s ! a)
      \<and> length (hmaps s) \<le> length (hmaps s')
      \<and> (\<forall>r<length (hmaps s). hmaps s' ! r = hmaps s ! r)
      \<and> set (enqueued s) \<subseteq> set (enqueued s'))"

text \<open>The snapshots of the read-merge-writes in flight: one per pending read or write
  of \<^verbatim>\<open>logs\<close>.\<close>

definition saving :: "op list \<Rightarrow> nat list" where
  "saving xs =
     concat (map (\<lambda>x. case x of GetLogs a \<Rightarrow> [a] | SetLogs a nl \<Rightarrow> [a] | GetRecording c \<Rightarrow> []) xs)"

definition queue_ok :: "engine \<Rightarrow> bool" where
  "queue_ok s =
     (enqueued s = processed s @ saving (inflight s) @ saveQueue s
      \<and> length (saving (inflight s)) = (if isSaving s then 1 else 0)
      \<and> (\<not> isSaving s \<longrightarrow> saveQueue s = []))"

definition store_ok :: "engine \<Rightarrow> bool" where
  "store_ok s =
     (logs s = Some (foldl applyLog [] (map (deref s) (processed s)))
      \<and> (\<forall>a nl. SetLogs a nl \<in> set (inflight s) \<longrightarrow>
            mergeLog (currentLogs s) (deref s a) = Some nl))"


text \<open>The value of the object \<^verbatim>\<open>getOrCreatePending\<close> creates, and of the entry it returns.\<close>

definition fresh :: "string \<Rightarrow> nat \<Rightarrow> slog" where
  "fresh rid now =
     \<lparr> log_id = rid, url = None, req_method = None, rtype = None, status = Some 0,
       timestamp = Some now, requestHeaders = Some [], responseHeaders = Some [],
       requestBody = None, error = None \<rparr>"

definition entry :: "engine \<Rightarrow> string \<Rightarrow> nat \<Rightarrow> slog" where
  "entry s rid now = (case pendingRequests s rid of Some a \<Rightarrow> deref s a | None \<Rightarrow> fresh rid now)"

text \<open>
  What a listener body does, seen from outside: from \<open>s\<close> to \<open>s'\<close> the body \<open>k\<close> ran
  on \<open>d\<close>, the entry of \<open>rid\<close> is at \<open>a\<close> (where it was, if it was there) and has the
  value \<open>v\<close>, one snapshot with that value was enqueued, no other object of the heap
  changed its value, and no read of the toggle was issued.
\<close>

definition ran_body ::
  "engine \<Rightarrow> engine \<Rightarrow> string \<Rightarrow> nat \<Rightarrow> handler \<Rightarrow> details \<Rightarrow> slog \<Rightarrow> bool"
where
  "ran_body s s' rid a k d v =
     (pendingRequests s' = (pendingRequests s)(rid \<mapsto> a)
      \<and> (\<forall>p. pendingRequests s rid = Some p \<longrightarrow> a = p)
      \<and> deref s' a = v
      \<and> (\<exists>c. enqueued s' = enqueued s @ [c] \<and> deref s' c = v)
      \<and> handled s' = handled s @ [(k, d)]
      \<and> (\<forall>x<length (objs s). x \<noteq> a \<longrightarrow> deref s' x = deref s x)
      \<and> (\<forall>c. GetRecording c \<in> set (inflight s') \<longrightarrow> GetRecording c \<in> set (inflight s))
      \<and> timers s' = timers s \<and> isRecording s' = isRecording s)"

section \<open>The union of the fields of one request\<close>

text \<open>
  The record of one request as the listeners build it, over the listener bodies that ran,
  in the order they ran: a scalar field holds the value of the latest event that set it,
  a header field the header maps seen, merged one after the other with \<open>assign\<close>. The
  status is 0 until a completed event sets it.
\<close>

definition latest :: "handler \<Rightarrow> (details \<Rightarrow> 'a) \<Rightarrow> (handler \<times> details) list \<Rightarrow> 'a option" where
  "latest k f hs =
     (let xs = filter (\<lambda>x. fst x = k) hs
      in if xs = [] then None else Some (f (snd (last xs))))"

definition merged ::
  "handler \<Rightarrow> (details \<Rightarrow> hdr list option) \<Rightarrow> (handler \<times> details) list \<Rightarrow> hdrmap"
where
  "merged k f hs =
     foldl assign [] (map (\<lambda>x. collect (f (snd x))) (filter (\<lambda>x. fst x = k) hs))"

definition union_exact :: "(handler \<times> details) list \<Rightarrow> slog \<Rightarrow> bool" where
  "union_exact hs v =
     (url v = latest HBeforeRequest d_url hs
      \<and> req_method v = latest HBeforeRequest d_method hs
      \<and> rtype v = latest HBeforeRequest d_type hs
      \<and> status v = Some (case latest HCompleted statusCode hs of None \<Rightarrow> 0 | Some c \<Rightarrow> c)
      \<and> error v = None
      \<and> requestHeaders v = Some (merged HBeforeSendHeaders d_requestHeaders hs)
      \<and> responseHeaders v = Some (merged HHeadersReceived d_responseHeaders hs))"

text \<open>The events of one request while its entry is not purged: no errored event (it
  deletes the entry) and no timer.\<close>

definition about :: "string \<Rightarrow> event \<Rightarrow> bool" where
  "about i e =
     (case e of
        BeforeRequest d \<Rightarrow> requestId d = i
      | BeforeSendHeaders d \<Rightarrow> requestId d = i
      | HeadersReceived d \<Rightarrow> requestId d = i
      | Completed d \<Rightarrow> requestId d = i
      | ErrorOccurred d \<Rightarrow> False
      | Deliver k now \<Rightarrow> True
      | Timeout k \<Rightarrow> False
      | SetRecording b \<Rightarrow> True)"

text \<open>A snapshot covers an earlier one: same identifier, and every property the earlier
  one has.\<close>

definition covers :: "slog \<Rightarrow> slog \<Rightarrow> bool" where
  "covers b a =
     (log_id b = log_id a
      \<and> (url a \<noteq> None \<longrightarrow> url b \<noteq> None)
      \<and> (req_method a \<noteq> None \<longrightarrow> req_method b \<noteq> None)
      \<and> (rtype a \<noteq> None \<longrightarrow> rtype b \<noteq> None)
      \<and> (status a \<noteq> None \<longrightarrow> status b \<noteq> None)
      \<and> (timestamp a \<noteq> None \<longrightarrow> timestamp b \<noteq> None)
      \<and> (requestHeaders a \<noteq> None \<longrightarrow> requestHeaders b \<noteq> None)
      \<and> (responseHeaders a \<noteq> None \<longrightarrow> responseHeaders b \<noteq> None)
      \<and> (requestBody a \<noteq> None \<longrightarrow> requestBody b \<noteq> None)
      \<and> (error a \<noteq> None \<longrightarrow> error b \<noteq> None))"

fun chain :: "slog list \<Rightarrow> bool" where
  "chain [] = True"
| "chain [x] = True"
| "chain (x # y # ys) = (covers y x \<and> chain (y # ys))"

fun cont_details :: "cont \<Rightarrow> details" where
  "cont_details (CBeforeRequest d) = d"
| "cont_details (CBeforeSendHeaders d) = d"
| "cont_details (CHeadersReceived d) = d"

text \<open>The invariant of the runs about one request \<open>i\<close>.\<close>

definition correlated :: "string \<Rightarrow> engine \<Rightarrow> bool" where
  "correlated i s =
     ((\<forall>rid a. pendingRequests s rid = Some a \<longrightarrow> rid = i)
      \<and> (\<forall>c. GetRecording c \<in> set (inflight s) \<longrightarrow> requestId (cont_details c) = i)
      \<and> (pendingRequests s i = None \<longrightarrow> handled s = [] \<and> enqueued s = [])
      \<and> (\<forall>a. pendingRequests s i = Some a \<longrightarrow>
            union_exact (handled s) (deref s a) \<and> log_id (deref s a) = i
            \<and> handled s \<noteq> []
            \<and> enqueued s \<noteq> [] \<and> deref s (last (enqueued s)) = deref s a)
      \<and> chain (map (deref s) (enqueued s))
      \<and> ((\<exists>x\<in>set (enqueued s). \<not> falsy (url (deref s x)))
           \<longleftrightarrow> (\<exists>d. (HBeforeRequest, d) \<in> set (handled s) \<and> d_url d \<noteq> [])))"

text \<open>The event a listener body, or a pending read of the toggle, comes from.\<close>

fun event_of :: "handler \<Rightarrow> details \<Rightarrow> event" where
  "event_of HBeforeRequest d = BeforeRequest d"
| "event_of HBeforeSendHeaders d = BeforeSendHeaders d"
| "event_of HHeadersReceived d = HeadersReceived d"
| "event_of HCompleted d = Completed d"
| "event_of HErrorOccurred d = ErrorOccurred d"

fun cont_event :: "cont \<Rightarrow> event" where
  "cont_event (CBeforeRequest d) = BeforeRequest d"
| "cont_event (CBeforeSendHeaders d) = BeforeSendHeaders d"
| "cont_event (CHeadersReceived d) = HeadersReceived d"

definition sourced :: "event set \<Rightarrow> engine \<Rightarrow> bool" where
  "sourced E s =
     ((\<forall>k d. (k, d) \<in> set (handled s) \<longrightarrow> event_of k d \<in> E)
      \<and> (\<forall>c. GetRecording c \<in> set (inflight s) \<longrightarrow> cont_event c \<in> E))"

subsection \<open>The union in the words of the specification\<close>

text \<open>
  The headers an event carries, as key and value (\<^verbatim>\<open>h.value || ''\<close>); the key \<^verbatim>\<open>__proto__\<close>
  names no property. \<open>headers_seen k f hs\<close> are the headers of all bodies of kind \<open>k\<close> that
  ran, in the order they ran and, within one event, in the order of the event.
\<close>

definition pairs :: "hdr list option \<Rightarrow> (string \<times> string) list" where
  "pairs hs =
     map (\<lambda>h. (h_name h, case h_value h of None \<Rightarrow> [] | Some v \<Rightarrow> v))
       (filter (\<lambda>h. h_name h \<noteq> ''__proto__'') (case hs of None \<Rightarrow> [] | Some l \<Rightarrow> l))"

definition headers_seen ::
  "handler \<Rightarrow> (details \<Rightarrow> hdr list option) \<Rightarrow> (handler \<times> details) list \<Rightarrow> (string \<times> string) list"
where
  "headers_seen k f hs = concat (map (\<lambda>x. pairs (f (snd x))) (filter (\<lambda>x. fst x = k) hs))"

text \<open>
  The union of the fields set by the bodies \<open>hs\<close>: URL, method and type of the latest
  begin, the status of the latest completed event (0 if there is none), no error, and as
  header maps the key-wise merge of all headers seen: a key has the value of the last
  header seen with that name (\<open>map_of\<close> takes the first pair of a list with the key).
\<close>

definition union_of :: "(handler \<times> details) list \<Rightarrow> slog \<Rightarrow> bool" where
  "union_of hs v =
     (url v = latest HBeforeRequest d_url hs
      \<and> req_method v = latest HBeforeRequest d_method hs
      \<and> rtype v = latest HBeforeRequest d_type hs
      \<and> status v = Some (case latest HCompleted statusCode hs of None \<Rightarrow> 0 | Some c \<Rightarrow> c)
      \<and> error v = None
      \<and> map_option map_of (requestHeaders v)
          = Some (map_of (rev (headers_seen HBeforeSendHeaders d_requestHeaders hs)))
      \<and> map_option map_of (responseHeaders v)
          = Some (map_of (rev (headers_seen HHeadersReceived d_responseHeaders hs))))"

subsection \<open>Which events get their listener body run\<close>

text \<open>The filters of the three listeners that read the toggle (for the begin listener
  the test on \<^verbatim>\<open>ping\<close> is implied: the type is \<^verbatim>\<open>xmlhttprequest\<close>).\<close>

definition passes :: "host \<Rightarrow> details \<Rightarrow> bool" where
  "passes h d = (\<not> isExtensionRequest h d \<and> isApiRequest d)"

fun cont_kind :: "cont \<Rightarrow> handler" where
  "cont_kind (CBeforeRequest d) = HBeforeRequest"
| "cont_kind (CBeforeSendHeaders d) = HBeforeSendHeaders"
| "cont_kind (CHeadersReceived d) = HHeadersReceived"

text \<open>The bodies that wait for their read of the toggle.\<close>

fun pending_read :: "op \<Rightarrow> (handler \<times> details) list" where
  "pending_read (GetRecording c) = [(cont_kind c, cont_details c)]"
| "pending_read (GetLogs a) = []"
| "pending_read (SetLogs a nl) = []"

definition recordings :: "op list \<Rightarrow> (handler \<times> details) list" where
  "recordings xs = concat (map pending_read xs)"

text \<open>The begin and headers events of a list that pass the filters, as the bodies they
  are to run.\<close>

fun read_of :: "host \<Rightarrow> event \<Rightarrow> (handler \<times> details) list" where
  "read_of h (BeforeRequest d) = (if passes h d then [(HBeforeRequest, d)] else [])"
| "read_of h (BeforeSendHeaders d) = (if passes h d then [(HBeforeSendHeaders, d)] else [])"
| "read_of h (HeadersReceived d) = (if passes h d then [(HHeadersReceived, d)] else [])"
| "read_of h (Completed d) = []"
| "read_of h (ErrorOccurred d) = []"
| "read_of h (Deliver k now) = []"
| "read_of h (Timeout k) = []"
| "read_of h (SetRecording b) = []"

definition reads :: "host \<Rightarrow> event list \<Rightarrow> (handler \<times> details) list" where
  "reads h es = concat (map (read_of h) es)"

fun toggled :: "handler \<Rightarrow> bool" where
  "toggled HBeforeRequest = True"
| "toggled HBeforeSendHeaders = True"
| "toggled HHeadersReceived = True"
| "toggled HCompleted = False"
| "toggled HErrorOccurred = False"

text \<open>Recording is switched on first and never off.\<close>

definition recording_on :: "event list \<Rightarrow> bool" where
  "recording_on es = (es \<noteq> [] \<and> hd es = SetRecording True \<and> SetRecording False \<notin> set (tl es))"

text \<open>What may still happen once the last listener body has run: callbacks of the
  storage, timers, writes of the toggle.\<close>

fun settling :: "event \<Rightarrow> bool" where
  "settling (Deliver k now) = True"
| "settling (Timeout k) = True"
| "settling (SetRecording b) = True"
| "settling (BeforeRequest d) = False"
| "settling (BeforeSendHeaders d) = False"
| "settling (HeadersReceived d) = False"
| "settling (Completed d) = False"
| "settling (ErrorOccurred d) = False"

text \<open>The invariant of that last phase: no body waits, and the last snapshot is the
  record of the request.\<close>

definition settled :: "string \<Rightarrow> engine \<Rightarrow> bool" where
  "settled i s =
     (recordings (inflight s) = []
      \<and> chain (map (deref s) (enqueued s))
      \<and> (enqueued s = [] \<longrightarrow> handled s = [])
      \<and> (enqueued s \<noteq> [] \<longrightarrow>
            union_exact (handled s) (deref s (last (enqueued s)))
            \<and> log_id (deref s (last (enqueued s))) = i)
      \<and> ((\<exists>x\<in>set (enqueued s). \<not> falsy (url (deref s x)))
           \<longleftrightarrow> (\<exists>d. (HBeforeRequest, d) \<in> set (handled s) \<and> d_url d \<noteq> [])))"

section \<open>Concrete inputs\<close>

text \<open>The host: an extension id, and the decoder the script builds.\<close>

definition host0 :: host where
  "host0 = \<lparr> EXTENSION_ID = ''abcdefgh'', decode = utf8_decode \<rparr>"

text \<open>The request of the example of the specification, and a second one.\<close>

definition req7 :: details where
  "req7 = \<lparr> requestId = ''7'', d_url = ''https://api.x/y'', d_method = ''GET'',
     d_type = ''xmlhttprequest'', initiator = None, d_requestBody = None,
     d_requestHeaders = None, d_responseHeaders = None, statusCode = 0, d_error = [] \<rparr>"

definition rec7 :: slog where
  "rec7 = \<lparr> log_id = ''7'', url = Some ''https://api.x/y'', req_method = Some ''GET'',
     rtype = Some ''xmlhttprequest'', status = Some 0, timestamp = Some 5,
     requestHeaders = Some [], responseHeaders = Some [], requestBody = None,
     error = None \<rparr>"

definition rec8 :: slog where
  "rec8 = \<lparr> log_id = ''8'', url = Some ''https://api.x/z'', req_method = Some ''POST'',
     rtype = Some ''xmlhttprequest'', status = Some 0, timestamp = Some 9,
     requestHeaders = Some [], responseHeaders = Some [], requestBody = None,
     error = None \<rparr>"

text \<open>A host that refuses a rule without header operations.\<close>

definition reject0 :: "rule list \<Rightarrow> string option" where
  "reject0 rs = (if list_ex (\<lambda>r. action_requestHeaders r = []) rs then Some ''no headers'' else None)"

definition cookie :: kv where
  "cookie = \<lparr> kv_key = Some ''Cookie'', kv_name = None, kv_value = Some ''a=b'' \<rparr>"

definition origin :: kv where
  "origin = \<lparr> kv_key = None, kv_name = Some ''Origin'', kv_value = Some ''https://api.x'' \<rparr>"

text \<open>Request 7 has begun, its first snapshot is being saved, and recording is switched
  off.\<close>

definition paused :: engine where
  "paused =
     run host0 [SetRecording True, BeforeRequest req7, Deliver 0 5, SetRecording False] installed"

text \<open>The headers of the example of the specification.\<close>

definition auth :: hdr where
  "auth = \<lparr> h_name = ''Authorization'', h_value = Some ''Bearer t'' \<rparr>"

definition ctype :: hdr where
  "ctype = \<lparr> h_name = ''Content-Type'', h_value = Some ''application/json'' \<rparr>"

text \<open>
  The example of the specification: begin, headers sent, headers received, completed
  with 200, the callbacks of the storage delivered as they come.
\<close>

definition example :: "event list" where
  "example =
     [SetRecording True,
      BeforeRequest req7, Deliver 0 5, Deliver 0 6, Deliver 0 7,
      BeforeSendHeaders (req7\<lparr>d_requestHeaders := Some [auth]\<rparr>),
      Deliver 0 8, Deliver 0 9, Deliver 0 10,
      HeadersReceived (req7\<lparr>d_responseHeaders := Some [ctype]\<rparr>),
      Deliver 0 11, Deliver 0 12, Deliver 0 13,
      Completed (req7\<lparr>statusCode := 200\<rparr>), Deliver 0 14, Deliver 0 15]"

text \<open>The completed event of request 7 before its begin event.\<close>

definition completed_first :: "event list" where
  "completed_first =
     [SetRecording True,
      Completed (req7\<lparr>statusCode := 200\<rparr>),
      BeforeRequest req7, Deliver 0 5, Deliver 0 6, Deliver 0 7]"

text \<open>Request 7 begins and completes with 200, its entry is purged by the timer, and a
  begin event with the same identifier follows.\<close>

definition done200 :: "event list" where
  "done200 =
     [SetRecording True,
      BeforeRequest req7, Deliver 0 5, Deliver 0 6, Deliver 0 7,
      Completed (req7\<lparr>statusCode := 200\<rparr>), Deliver 0 8, Deliver 0 9]"

definition reborn :: "event list" where
  "reborn = done200 @ [Timeout 0, BeforeRequest req7, Deliver 0 20, Deliver 0 21, Deliver 0 22]"

text \<open>
  Request 7 has begun and its response headers are stored; a headers-sent event is
  waiting for its read of the toggle when the request fails, or completes.
\<close>

definition received :: "event list" where
  "received =
     [SetRecording True,
      BeforeRequest req7, Deliver 0 5, Deliver 0 6, Deliver 0 7,
      HeadersReceived (req7\<lparr>d_responseHeaders := Some [ctype]\<rparr>),
      Deliver 0 8, Deliver 0 9, Deliver 0 10,
      BeforeSendHeaders (req7\<lparr>d_requestHeaders := Some [auth]\<rparr>)]"

definition late_after_error :: "event list" where
  "late_after_error =
     received @
     [ErrorOccurred (req7\<lparr>d_error := ''net::ERR_FAILED''\<rparr>),
      Deliver 1 11, Deliver 0 12, Deliver 0 13, Deliver 0 14, Deliver 0 15, Deliver 0 16]"

definition late_after_completed :: "event list" where
  "late_after_completed =
     received @
     [Completed (req7\<lparr>statusCode := 200\<rparr>),
      Deliver 1 11, Deliver 0 12, Deliver 0 13, Deliver 0 14, Deliver 0 15, Deliver 0 16]"

text \<open>The record the example of the specification ends with (the timestamp is the clock
  value of the begin callback).\<close>

definition example_record :: slog where
  "example_record =
     \<lparr> log_id = ''7'', url = Some ''https://api.x/y'', req_method = Some ''GET'',
       rtype = Some ''xmlhttprequest'', status = Some 200, timestamp = Some 5,
       requestHeaders = Some [(''Authorization'', ''Bearer t'')],
       responseHeaders = Some [(''Content-Type'', ''application/json'')],
       requestBody = None, error = None \<rparr>"

text \<open>Request 7 has begun: its entry is in the pending table.\<close>

definition begun :: engine where
  "begun = run host0 [SetRecording True, BeforeRequest req7, Deliver 0 5] installed"

text \<open>Request 7 with the raw body C8 41, which is not UTF-8, and its begin event with the
  callbacks of the storage delivered as they come.\<close>

definition binary7 :: details where
  "binary7 = req7\<lparr>d_requestBody :=
     Some \<lparr> raw = Some [\<lparr> bytes = Some [0xC8, 0x41], u_file = None \<rparr>], formData = None \<rparr>\<rparr>"

definition binary_begin :: "event list" where
  "binary_begin = [SetRecording True, BeforeRequest binary7, Deliver 0 5, Deliver 0 6, Deliver 0 7]"


section \<open>Proofs of the invariants\<close>

subsection \<open>The heap stays well formed\<close>

lemma nth_upd: "xs[i := x] ! j = (if i = j \<and> i < length xs then x else xs ! j)"
  by (cases "i < length xs") (auto simp: list_update_beyond)


lemma processQueue_fields [simp]:
  "objs (processQueue s) = objs s"
  "hmaps (processQueue s) = hmaps s"
  "pendingRequests (processQueue s) = pendingRequests s"
  "timers (processQueue s) = timers s"
  "isRecording (processQueue s) = isRecording s"
  "logs (processQueue s) = logs s"
  "enqueued (processQueue s) = enqueued s"
  "processed (processQueue s) = processed s"
  "handled (processQueue s) = handled s"
  by (simp_all add: processQueue_def issue_def split: list.splits)

lemma saveLog_fields [simp]:
  "objs (saveLog a s) = objs s @ [objs s ! a]"
  "hmaps (saveLog a s) = hmaps s"
  "pendingRequests (saveLog a s) = pendingRequests s"
  "timers (saveLog a s) = timers s"
  "isRecording (saveLog a s) = isRecording s"
  "logs (saveLog a s) = logs s"
  "enqueued (saveLog a s) = enqueued s @ [length (objs s)]"
  "processed (saveLog a s) = processed s"
  "handled (saveLog a s) = handled s"
  by (simp_all add: saveLog_def Let_def)

lemma heap_ok_cong:
  "objs s' = objs s \<Longrightarrow> hmaps s' = hmaps s \<Longrightarrow> pendingRequests s' = pendingRequests s \<Longrightarrow>
   enqueued s' = enqueued s \<Longrightarrow> heap_ok s' = heap_ok s"
  by (simp add: heap_ok_def)

lemma heap_ok_saveLog:
  "heap_ok s \<Longrightarrow> a < length (objs s) \<Longrightarrow> heap_ok (saveLog a s)"
  unfolding heap_ok_def
  by (auto simp: nth_append less_Suc_eq)

lemma heap_ok_getOrCreatePending:
  "heap_ok s \<Longrightarrow> getOrCreatePending rid now s = (a, s1) \<Longrightarrow>
   heap_ok s1 \<and> pendingRequests s1 rid = Some a"
  unfolding heap_ok_def getOrCreatePending_def
  by (auto simp: nth_append less_Suc_eq Let_def split: option.splits if_splits)

lemma heap_ok_modify:
  "heap_ok s \<Longrightarrow> log_id (f (objs s ! a)) = log_id (objs s ! a) \<Longrightarrow>
   (\<forall>r. (requestHeaders (f (objs s ! a)) = Some r \<or> responseHeaders (f (objs s ! a)) = Some r) \<longrightarrow> r < length (hmaps s)) \<Longrightarrow>
   heap_ok (modify a f s)"
  unfolding heap_ok_def modify_def
  by (auto simp: nth_upd)

lemma heap_ok_grow:
  "heap_ok s \<Longrightarrow> heap_ok (s\<lparr>hmaps := hmaps s @ ms\<rparr>)"
  unfolding heap_ok_def by fastforce

lemma heap_ok_remove:
  "heap_ok s \<Longrightarrow> heap_ok (s\<lparr>pendingRequests := (pendingRequests s)(rid := None)\<rparr>)"
  unfolding heap_ok_def by (auto split: if_splits)

lemma heap_ok_pendingD:
  "heap_ok s \<Longrightarrow> pendingRequests s rid = Some a \<Longrightarrow> a < length (objs s)"
  unfolding heap_ok_def by blast

lemma setBody_keeps:
  "log_id (setBody h d l) = log_id l"
  "requestHeaders (setBody h d l) = requestHeaders l"
  "responseHeaders (setBody h d l) = responseHeaders l"
  by (simp_all add: setBody_def split: option.splits list.splits)

lemma heap_ok_onBeforeRequest_cb: "heap_ok s \<Longrightarrow> heap_ok (onBeforeRequest_cb h d now s)"
proof (cases "isRecording s")
  case False
  then show "heap_ok s \<Longrightarrow> ?thesis" by (simp add: onBeforeRequest_cb_def)
next
  case True
  assume ok: "heap_ok s"
  obtain a s1 where g: "getOrCreatePending (requestId d) now s = (a, s1)" by fastforce
  from heap_ok_getOrCreatePending[OF ok g] have ok1: "heap_ok s1" and p1: "pendingRequests s1 (requestId d) = Some a" by auto
  have ok2: "heap_ok (mark HBeforeRequest d s1)" using ok1 by (simp add: mark_def heap_ok_def)
  let ?s2 = "mark HBeforeRequest d s1"
  let ?f = "(\<lambda>l. setBody h d (l\<lparr>url := Some (d_url d), req_method := Some (d_method d), rtype := Some (d_type d)\<rparr>))"
  have a: "a < length (objs ?s2)" using heap_ok_pendingD[OF ok1 p1] by (simp add: mark_def)
  have ok3: "heap_ok (modify a ?f ?s2)"
    using ok2 a by (intro heap_ok_modify) (auto simp: setBody_keeps heap_ok_def)
  have "heap_ok (saveLog a (modify a ?f ?s2))"
    using ok3 a by (intro heap_ok_saveLog) (simp_all add: modify_def)
  then show ?thesis using True g by (simp add: onBeforeRequest_cb_def)
qed


lemma heap_ok_save_modify:
  assumes ok: "heap_ok s" and p: "pendingRequests s rid = Some a"
    and id: "log_id (f (objs s ! a)) = log_id (objs s ! a)"
    and refs: "\<forall>r. (requestHeaders (f (objs s ! a)) = Some r \<or> responseHeaders (f (objs s ! a)) = Some r) \<longrightarrow> r < length (hmaps s)"
  shows "heap_ok (saveLog a (modify a f s))"
proof -
  have a: "a < length (objs s)" using heap_ok_pendingD[OF ok p] .
  have "heap_ok (modify a f s)" using ok id refs by (rule heap_ok_modify)
  then show ?thesis using a by (intro heap_ok_saveLog) (simp_all add: modify_def)
qed

lemma heap_ok_refsD:
  "heap_ok s \<Longrightarrow> a < length (objs s) \<Longrightarrow> requestHeaders (objs s ! a) = Some r \<Longrightarrow> r < length (hmaps s)"
  "heap_ok s \<Longrightarrow> a < length (objs s) \<Longrightarrow> responseHeaders (objs s ! a) = Some r \<Longrightarrow> r < length (hmaps s)"
  unfolding heap_ok_def by blast+

lemma mark_fields [simp]:
  "objs (mark k d s) = objs s"
  "hmaps (mark k d s) = hmaps s"
  "pendingRequests (mark k d s) = pendingRequests s"
  "isSaving (mark k d s) = isSaving s"
  "saveQueue (mark k d s) = saveQueue s"
  "inflight (mark k d s) = inflight s"
  "timers (mark k d s) = timers s"
  "isRecording (mark k d s) = isRecording s"
  "logs (mark k d s) = logs s"
  "enqueued (mark k d s) = enqueued s"
  "processed (mark k d s) = processed s"
  "handled (mark k d s) = handled s @ [(k, d)]"
  by (simp_all add: mark_def)

lemma modify_fields [simp]:
  "objs (modify a f s) = (objs s)[a := f (objs s ! a)]"
  "hmaps (modify a f s) = hmaps s"
  "pendingRequests (modify a f s) = pendingRequests s"
  "isSaving (modify a f s) = isSaving s"
  "saveQueue (modify a f s) = saveQueue s"
  "inflight (modify a f s) = inflight s"
  "timers (modify a f s) = timers s"
  "isRecording (modify a f s) = isRecording s"
  "logs (modify a f s) = logs s"
  "enqueued (modify a f s) = enqueued s"
  "processed (modify a f s) = processed s"
  "handled (modify a f s) = handled s"
  by (simp_all add: modify_def)

lemma issue_fields [simp]:
  "objs (issue x s) = objs s"
  "hmaps (issue x s) = hmaps s"
  "pendingRequests (issue x s) = pendingRequests s"
  "isSaving (issue x s) = isSaving s"
  "saveQueue (issue x s) = saveQueue s"
  "inflight (issue x s) = inflight s @ [x]"
  "timers (issue x s) = timers s"
  "isRecording (issue x s) = isRecording s"
  "logs (issue x s) = logs s"
  "enqueued (issue x s) = enqueued s"
  "processed (issue x s) = processed s"
  "handled (issue x s) = handled s"
  by (simp_all add: issue_def)

lemma heap_ok_mark [simp]: "heap_ok (mark k d s) = heap_ok s"
  by (rule heap_ok_cong) simp_all

lemma heap_ok_issue [simp]: "heap_ok (issue x s) = heap_ok s"
  by (rule heap_ok_cong) simp_all

lemma heap_ok_onBeforeSendHeaders_cb: "heap_ok s \<Longrightarrow> heap_ok (onBeforeSendHeaders_cb d now s)"
proof (cases "isRecording s")
  case False
  then show "heap_ok s \<Longrightarrow> ?thesis" by (simp add: onBeforeSendHeaders_cb_def)
next
  case True
  assume ok: "heap_ok s"
  obtain a s1 where g: "getOrCreatePending (requestId d) now s = (a, s1)" by fastforce
  from heap_ok_getOrCreatePending[OF ok g] have ok1: "heap_ok s1" and p1: "pendingRequests s1 (requestId d) = Some a" by auto
  define m where "m = assign (case requestHeaders (objs s1 ! a) of None \<Rightarrow> [] | Some r \<Rightarrow> hmaps s1 ! r) (collect (d_requestHeaders d))"
  let ?s2 = "mark HBeforeSendHeaders d (s1\<lparr>hmaps := hmaps s1 @ [m]\<rparr>)"
  have ok2: "heap_ok ?s2" using heap_ok_grow[OF ok1] by simp
  have a: "a < length (objs s1)" using heap_ok_pendingD[OF ok1 p1] .
  have "heap_ok (saveLog a (modify a (\<lambda>l. l\<lparr>requestHeaders := Some (length (hmaps s1))\<rparr>) ?s2))"
    using ok2 p1 a heap_ok_refsD(2)[OF ok1 a]
    by (intro heap_ok_save_modify[where rid="requestId d"]) (auto simp: less_Suc_eq)
  then show ?thesis using True g by (simp add: onBeforeSendHeaders_cb_def Let_def m_def)
qed

lemma heap_ok_onHeadersReceived_cb: "heap_ok s \<Longrightarrow> heap_ok (onHeadersReceived_cb d now s)"
proof (cases "isRecording s")
  case False
  then show "heap_ok s \<Longrightarrow> ?thesis" by (simp add: onHeadersReceived_cb_def)
next
  case True
  assume ok: "heap_ok s"
  obtain a s1 where g: "getOrCreatePending (requestId d) now s = (a, s1)" by fastforce
  from heap_ok_getOrCreatePending[OF ok g] have ok1: "heap_ok s1" and p1: "pendingRequests s1 (requestId d) = Some a" by auto
  define m where "m = assign (case responseHeaders (objs s1 ! a) of None \<Rightarrow> [] | Some r \<Rightarrow> hmaps s1 ! r) (collect (d_responseHeaders d))"
  let ?s2 = "mark HHeadersReceived d (s1\<lparr>hmaps := hmaps s1 @ [m]\<rparr>)"
  have ok2: "heap_ok ?s2" using heap_ok_grow[OF ok1] by simp
  have a: "a < length (objs s1)" using heap_ok_pendingD[OF ok1 p1] .
  have "heap_ok (saveLog a (modify a (\<lambda>l. l\<lparr>responseHeaders := Some (length (hmaps s1))\<rparr>) ?s2))"
    using ok2 p1 a heap_ok_refsD(1)[OF ok1 a]
    by (intro heap_ok_save_modify[where rid="requestId d"]) (auto simp: less_Suc_eq)
  then show ?thesis using True g by (simp add: onHeadersReceived_cb_def Let_def m_def)
qed

lemma heap_ok_onCompleted: "heap_ok s \<Longrightarrow> heap_ok (onCompleted d s)"
proof -
  assume ok: "heap_ok s"
  show ?thesis
  proof (cases "pendingRequests s (requestId d)")
    case None
    then show ?thesis using ok by (simp add: onCompleted_def)
  next
    case (Some a)
    have a: "a < length (objs s)" using heap_ok_pendingD[OF ok Some] .
    have "heap_ok (saveLog a (modify a (\<lambda>l. l\<lparr>status := Some (statusCode d)\<rparr>) (mark HCompleted d s)))"
      using ok Some a heap_ok_refsD[OF ok a]
      by (intro heap_ok_save_modify[where rid="requestId d"]) auto
    then have "heap_ok (saveLog a (modify a (\<lambda>l. l\<lparr>status := Some (statusCode d)\<rparr>) (mark HCompleted d s))\<lparr>timers := ts\<rparr>)" for ts
      by (simp add: heap_ok_def)
    then show ?thesis using ok Some by (simp add: onCompleted_def Let_def)
  qed
qed

lemma heap_ok_onErrorOccurred: "heap_ok s \<Longrightarrow> heap_ok (onErrorOccurred d s)"
proof -
  assume ok: "heap_ok s"
  show ?thesis
  proof (cases "pendingRequests s (requestId d)")
    case None
    then show ?thesis using ok by (simp add: onErrorOccurred_def)
  next
    case (Some a)
    have a: "a < length (objs s)" using heap_ok_pendingD[OF ok Some] .
    have "heap_ok (saveLog a (modify a (\<lambda>l. l\<lparr>status := Some 0, error := Some (d_error d)\<rparr>) (mark HErrorOccurred d s)))"
      using ok Some a heap_ok_refsD[OF ok a]
      by (intro heap_ok_save_modify[where rid="requestId d"]) auto
    from heap_ok_remove[OF this] show ?thesis using ok Some
      by (simp add: onErrorOccurred_def Let_def)
  qed
qed

lemma heap_ok_processQueue [simp]: "heap_ok (processQueue s) = heap_ok s"
  by (rule heap_ok_cong) simp_all

lemma heap_ok_onGetLogs: "heap_ok s \<Longrightarrow> heap_ok (onGetLogs a s)"
  by (auto simp: onGetLogs_def Let_def heap_ok_def split: option.splits)

lemma heap_ok_onSetLogs: "heap_ok s \<Longrightarrow> heap_ok (onSetLogs a nl s)"
  by (auto simp: onSetLogs_def Let_def heap_ok_def)

lemma heap_ok_callback: "heap_ok s \<Longrightarrow> heap_ok (callback h x now s)"
  by (auto simp: callback_def heap_ok_onBeforeRequest_cb heap_ok_onBeforeSendHeaders_cb
      heap_ok_onHeadersReceived_cb heap_ok_onGetLogs heap_ok_onSetLogs split: op.splits cont.splits)

lemma heap_ok_step: "heap_ok s \<Longrightarrow> heap_ok (step h e s)"
proof (cases e)
  case (Deliver k now)
  assume ok: "heap_ok s"
  then have "heap_ok (s\<lparr>inflight := without k (inflight s)\<rparr>)" by (simp add: heap_ok_def)
  then show ?thesis using ok Deliver by (simp add: step_def heap_ok_callback)
next
  case (Timeout k)
  assume ok: "heap_ok s"
  then have "heap_ok (s\<lparr>timers := without k (timers s)\<rparr>)" by (simp add: heap_ok_def)
  from heap_ok_remove[OF this] show ?thesis using ok Timeout by (simp add: step_def onTimeout_def)
next
  case (SetRecording b)
  assume ok: "heap_ok s"
  then show ?thesis using SetRecording by (simp add: step_def heap_ok_def)
qed (simp_all add: step_def onBeforeRequest_def onBeforeSendHeaders_def onHeadersReceived_def
      heap_ok_onCompleted heap_ok_onErrorOccurred)

lemma run_snoc: "run h (es @ [e]) s = step h e (run h es s)"
  by (simp add: run_def)

lemma heap_ok_run: "heap_ok (run h es installed)"
proof (induction es rule: rev_induct)
  case Nil
  show ?case by (simp add: run_def installed_def heap_ok_def)
next
  case (snoc e es)
  then show ?case by (simp add: run_snoc heap_ok_step)
qed


subsection \<open>Snapshots and header maps are never written\<close>

lemma extends_refl: "extends s s"
  by (simp add: extends_def)

lemma extends_trans: "extends s s1 \<Longrightarrow> extends s1 s2 \<Longrightarrow> extends s s2"
  unfolding extends_def by (auto simp: subset_iff)

lemma extends_cong:
  "objs s' = objs s \<Longrightarrow> hmaps s' = hmaps s \<Longrightarrow> enqueued s' = enqueued s \<Longrightarrow> extends s s'"
  by (simp add: extends_def)

lemma extends_getOrCreatePending:
  "heap_ok s \<Longrightarrow> getOrCreatePending rid now s = (a, s1) \<Longrightarrow> extends s s1"
  unfolding heap_ok_def getOrCreatePending_def extends_def
  by (auto simp: nth_append Let_def split: option.splits)

lemma extends_grow: "extends s (s\<lparr>hmaps := hmaps s @ ms\<rparr>)"
  by (simp add: extends_def nth_append)

lemma extends_save_modify:
  "heap_ok s \<Longrightarrow> pendingRequests s rid = Some a \<Longrightarrow> extends s (saveLog a (modify a f s))"
  unfolding heap_ok_def extends_def
  by (auto simp: nth_append nth_upd)

lemma deref_extends:
  "heap_ok s \<Longrightarrow> extends s s' \<Longrightarrow> a \<in> set (enqueued s) \<Longrightarrow> deref s' a = deref s a"
  unfolding heap_ok_def extends_def deref_def resolve_def
  by (auto simp: map_option_case split: option.splits)

lemma extends_onBeforeRequest_cb: "heap_ok s \<Longrightarrow> extends s (onBeforeRequest_cb h d now s)"
proof (cases "isRecording s")
  case False
  then show ?thesis by (simp add: onBeforeRequest_cb_def extends_refl)
next
  case True
  assume ok: "heap_ok s"
  obtain a s1 where g: "getOrCreatePending (requestId d) now s = (a, s1)" by fastforce
  from heap_ok_getOrCreatePending[OF ok g] have ok1: "heap_ok s1" and p1: "pendingRequests s1 (requestId d) = Some a" by auto
  have e1: "extends s (mark HBeforeRequest d s1)"
    using extends_getOrCreatePending[OF ok g] by (auto simp: extends_def)
  have "extends (mark HBeforeRequest d s1) (saveLog a (modify a f (mark HBeforeRequest d s1)))" for f
    using ok1 p1 by (intro extends_save_modify[where rid="requestId d"]) simp_all
  from extends_trans[OF e1 this] show ?thesis using True g by (simp add: onBeforeRequest_cb_def)
qed

lemma extends_onBeforeSendHeaders_cb: "heap_ok s \<Longrightarrow> extends s (onBeforeSendHeaders_cb d now s)"
proof (cases "isRecording s")
  case False
  then show ?thesis by (simp add: onBeforeSendHeaders_cb_def extends_refl)
next
  case True
  assume ok: "heap_ok s"
  obtain a s1 where g: "getOrCreatePending (requestId d) now s = (a, s1)" by fastforce
  from heap_ok_getOrCreatePending[OF ok g] have ok1: "heap_ok s1" and p1: "pendingRequests s1 (requestId d) = Some a" by auto
  define m where "m = assign (case requestHeaders (objs s1 ! a) of None \<Rightarrow> [] | Some r \<Rightarrow> hmaps s1 ! r) (collect (d_requestHeaders d))"
  let ?s2 = "mark HBeforeSendHeaders d (s1\<lparr>hmaps := hmaps s1 @ [m]\<rparr>)"
  have ok2: "heap_ok ?s2" using heap_ok_grow[OF ok1] by simp
  have e1: "extends s ?s2"
    using extends_getOrCreatePending[OF ok g] by (auto simp: extends_def nth_append)
  have "extends ?s2 (saveLog a (modify a f ?s2))" for f
    using ok2 p1 by (intro extends_save_modify[where rid="requestId d"]) simp_all
  from extends_trans[OF e1 this] show ?thesis using True g
    by (simp add: onBeforeSendHeaders_cb_def Let_def m_def)
qed

lemma extends_onHeadersReceived_cb: "heap_ok s \<Longrightarrow> extends s (onHeadersReceived_cb d now s)"
proof (cases "isRecording s")
  case False
  then show ?thesis by (simp add: onHeadersReceived_cb_def extends_refl)
next
  case True
  assume ok: "heap_ok s"
  obtain a s1 where g: "getOrCreatePending (requestId d) now s = (a, s1)" by fastforce
  from heap_ok_getOrCreatePending[OF ok g] have ok1: "heap_ok s1" and p1: "pendingRequests s1 (requestId d) = Some a" by auto
  define m where "m = assign (case responseHeaders (objs s1 ! a) of None \<Rightarrow> [] | Some r \<Rightarrow> hmaps s1 ! r) (collect (d_responseHeaders d))"
  let ?s2 = "mark HHeadersReceived d (s1\<lparr>hmaps := hmaps s1 @ [m]\<rparr>)"
  have ok2: "heap_ok ?s2" using heap_ok_grow[OF ok1] by simp
  have e1: "extends s ?s2"
    using extends_getOrCreatePending[OF ok g] by (auto simp: extends_def nth_append)
  have "extends ?s2 (saveLog a (modify a f ?s2))" for f
    using ok2 p1 by (intro extends_save_modify[where rid="requestId d"]) simp_all
  from extends_trans[OF e1 this] show ?thesis using True g
    by (simp add: onHeadersReceived_cb_def Let_def m_def)
qed

lemma extends_onCompleted: "heap_ok s \<Longrightarrow> extends s (onCompleted d s)"
proof (cases "pendingRequests s (requestId d)")
  case None
  then show ?thesis by (simp add: onCompleted_def extends_refl)
next
  case (Some a)
  assume ok: "heap_ok s"
  have "extends (mark HCompleted d s) (saveLog a (modify a f (mark HCompleted d s)))" for f
    using ok Some by (intro extends_save_modify[where rid="requestId d"]) simp_all
  then have "extends s (saveLog a (modify a f (mark HCompleted d s))\<lparr>timers := ts\<rparr>)" for f ts
    by (simp add: extends_def)
  then show ?thesis using Some by (simp add: onCompleted_def Let_def extends_refl)
qed

lemma extends_onErrorOccurred: "heap_ok s \<Longrightarrow> extends s (onErrorOccurred d s)"
proof (cases "pendingRequests s (requestId d)")
  case None
  then show ?thesis by (simp add: onErrorOccurred_def extends_refl)
next
  case (Some a)
  assume ok: "heap_ok s"
  have "extends (mark HErrorOccurred d s) (saveLog a (modify a f (mark HErrorOccurred d s)))" for f
    using ok Some by (intro extends_save_modify[where rid="requestId d"]) simp_all
  then have "extends s (saveLog a (modify a f (mark HErrorOccurred d s))\<lparr>pendingRequests := ps\<rparr>)" for f ps
    by (simp add: extends_def)
  then show ?thesis using Some by (simp add: onErrorOccurred_def Let_def extends_refl)
qed

lemma extends_onGetLogs: "extends s (onGetLogs a s)"
  by (auto simp: onGetLogs_def Let_def extends_def split: option.splits)

lemma extends_onSetLogs: "extends s (onSetLogs a nl s)"
  by (auto simp: onSetLogs_def Let_def extends_def)

lemma extends_callback: "heap_ok s \<Longrightarrow> extends s (callback h x now s)"
  by (auto simp: callback_def extends_onBeforeRequest_cb extends_onBeforeSendHeaders_cb
      extends_onHeadersReceived_cb extends_onGetLogs extends_onSetLogs split: op.splits cont.splits)

lemma extends_step: "heap_ok s \<Longrightarrow> extends s (step h e s)"
proof (cases e)
  case (Deliver k now)
  assume ok: "heap_ok s"
  let ?s0 = "s\<lparr>inflight := without k (inflight s)\<rparr>"
  have ok0: "heap_ok ?s0" using ok by (simp add: heap_ok_def)
  have "extends s ?s0" by (simp add: extends_def)
  from extends_trans[OF this extends_callback[OF ok0]]
  show ?thesis using Deliver by (simp add: step_def extends_refl)
qed (simp_all add: step_def onBeforeRequest_def onBeforeSendHeaders_def onHeadersReceived_def
      extends_onCompleted extends_onErrorOccurred extends_refl extends_cong onTimeout_def)

lemma extends_run: "heap_ok s \<Longrightarrow> heap_ok (run h es s) \<and> extends s (run h es s)"
proof (induction es rule: rev_induct)
  case Nil
  then show ?case by (simp add: run_def extends_refl)
next
  case (snoc e es)
  then show ?case
    using heap_ok_step extends_step extends_trans by (simp add: run_snoc) blast
qed


subsection \<open>The queue invariant\<close>

lemma saving_simps [simp]:
  "saving [] = []"
  "saving (GetLogs a # xs) = a # saving xs"
  "saving (SetLogs a nl # xs) = a # saving xs"
  "saving (GetRecording c # xs) = saving xs"
  "saving (xs @ ys) = saving xs @ saving ys"
  by (simp_all add: saving_def)

lemma saving_without:
  assumes "k < length xs"
  shows "saving xs = saving (take k xs) @ saving [xs ! k] @ saving (drop (Suc k) xs)"
    and "saving (without k xs) = saving (take k xs) @ saving (drop (Suc k) xs)"
proof -
  have "xs = take k xs @ [xs ! k] @ drop (Suc k) xs"
    using assms by (simp add: id_take_nth_drop)
  then have "saving xs = saving (take k xs @ [xs ! k] @ drop (Suc k) xs)" by simp
  then show "saving xs = saving (take k xs) @ saving [xs ! k] @ saving (drop (Suc k) xs)"
    by (simp only: saving_simps)
  show "saving (without k xs) = saving (take k xs) @ saving (drop (Suc k) xs)"
    by (simp add: without_def)
qed

lemma queue_ok_cong:
  "enqueued s' = enqueued s \<Longrightarrow> processed s' = processed s \<Longrightarrow> inflight s' = inflight s \<Longrightarrow>
   saveQueue s' = saveQueue s \<Longrightarrow> isSaving s' = isSaving s \<Longrightarrow> queue_ok s' = queue_ok s"
  by (simp add: queue_ok_def)

lemma saveLog_queue:
  "saveQueue (saveLog a s) = (if isSaving s then saveQueue s @ [length (objs s)] else tl (saveQueue s @ [length (objs s)]))"
  "inflight (saveLog a s) = (if isSaving s then inflight s else inflight s @ [GetLogs (hd (saveQueue s @ [length (objs s)]))])"
  "isSaving (saveLog a s) = True"
  by (auto simp: saveLog_def processQueue_def Let_def split: list.splits)

lemma queue_ok_issue [simp]: "queue_ok (issue (GetRecording c) s) = queue_ok s"
  by (simp add: queue_ok_def)

lemma queue_ok_saveLog: "queue_ok s \<Longrightarrow> queue_ok (saveLog a s)"
  by (auto simp: queue_ok_def saveLog_queue)

lemma getOrCreatePending_fields:
  "getOrCreatePending rid now s = (a, s1) \<Longrightarrow>
     isSaving s1 = isSaving s \<and> saveQueue s1 = saveQueue s \<and> inflight s1 = inflight s
     \<and> timers s1 = timers s \<and> isRecording s1 = isRecording s \<and> logs s1 = logs s
     \<and> enqueued s1 = enqueued s \<and> processed s1 = processed s \<and> handled s1 = handled s"
  by (auto simp: getOrCreatePending_def Let_def split: option.splits)

lemma queue_ok_onBeforeRequest_cb: "queue_ok s \<Longrightarrow> queue_ok (onBeforeRequest_cb h d now s)"
proof -
  assume ok: "queue_ok s"
  obtain a s1 where g: "getOrCreatePending (requestId d) now s = (a, s1)" by fastforce
  have "queue_ok (modify a f (mark HBeforeRequest d s1))" for f
    using ok getOrCreatePending_fields[OF g] by (simp add: queue_ok_def)
  then show ?thesis using ok g by (simp add: onBeforeRequest_cb_def queue_ok_saveLog)
qed

lemma queue_ok_onBeforeSendHeaders_cb: "queue_ok s \<Longrightarrow> queue_ok (onBeforeSendHeaders_cb d now s)"
proof -
  assume ok: "queue_ok s"
  obtain a s1 where g: "getOrCreatePending (requestId d) now s = (a, s1)" by fastforce
  have "queue_ok (modify a f (mark HBeforeSendHeaders d (s1\<lparr>hmaps := ms\<rparr>)))" for f ms
    using ok getOrCreatePending_fields[OF g] by (simp add: queue_ok_def)
  then show ?thesis using ok g by (simp add: onBeforeSendHeaders_cb_def queue_ok_saveLog Let_def)
qed

lemma queue_ok_onHeadersReceived_cb: "queue_ok s \<Longrightarrow> queue_ok (onHeadersReceived_cb d now s)"
proof -
  assume ok: "queue_ok s"
  obtain a s1 where g: "getOrCreatePending (requestId d) now s = (a, s1)" by fastforce
  have "queue_ok (modify a f (mark HHeadersReceived d (s1\<lparr>hmaps := ms\<rparr>)))" for f ms
    using ok getOrCreatePending_fields[OF g] by (simp add: queue_ok_def)
  then show ?thesis using ok g by (simp add: onHeadersReceived_cb_def queue_ok_saveLog Let_def)
qed

lemma queue_ok_onCompleted: "queue_ok s \<Longrightarrow> queue_ok (onCompleted d s)"
proof -
  assume ok: "queue_ok s"
  have "queue_ok (modify a f (mark HCompleted d s))" for f a
    using ok by (simp add: queue_ok_def)
  from queue_ok_saveLog[OF this]
  have "queue_ok (saveLog a (modify a f (mark HCompleted d s))\<lparr>timers := ts\<rparr>)" for f a ts
    by (simp add: queue_ok_def)
  then show ?thesis using ok by (simp add: onCompleted_def Let_def split: option.splits)
qed

lemma queue_ok_onErrorOccurred: "queue_ok s \<Longrightarrow> queue_ok (onErrorOccurred d s)"
proof -
  assume ok: "queue_ok s"
  have "queue_ok (modify a f (mark HErrorOccurred d s))" for f a
    using ok by (simp add: queue_ok_def)
  from queue_ok_saveLog[OF this]
  have "queue_ok (saveLog a (modify a f (mark HErrorOccurred d s))\<lparr>pendingRequests := ps\<rparr>)" for f a ps
    by (simp add: queue_ok_def)
  then show ?thesis using ok by (simp add: onErrorOccurred_def Let_def split: option.splits)
qed

text \<open>The end of a pass: the flag is released and the next item, if any, is taken.\<close>

lemma queue_ok_release:
  assumes "enqueued s = processed s @ [a] @ saveQueue s" "saving (inflight s) = []"
  shows "queue_ok (let s1 = s\<lparr>isSaving := False, processed := processed s @ [a]\<rparr>
                   in if saveQueue s1 \<noteq> [] then processQueue s1 else s1)"
  using assms by (auto simp: queue_ok_def processQueue_def Let_def split: list.splits)

lemma queue_ok_Deliver:
  assumes ok: "queue_ok s" and k: "k < length (inflight s)"
  shows "queue_ok (callback h (inflight s ! k) now (s\<lparr>inflight := without k (inflight s)\<rparr>))"
proof -
  let ?s0 = "s\<lparr>inflight := without k (inflight s)\<rparr>"
  note sw = saving_without[OF k]
  show ?thesis
  proof (cases "inflight s ! k")
    case (GetRecording c)
    then have "saving (inflight ?s0) = saving (inflight s)" using sw by simp
    then have "queue_ok ?s0" using ok by (simp add: queue_ok_def)
    then show ?thesis using GetRecording
      by (auto simp: callback_def queue_ok_onBeforeRequest_cb queue_ok_onBeforeSendHeaders_cb
          queue_ok_onHeadersReceived_cb split: cont.splits)
  next
    case (GetLogs a)
    have len: "length (saving (inflight s)) \<le> 1" using ok by (simp add: queue_ok_def)
    have s1: "saving (inflight s) = [a]" and s0: "saving (inflight ?s0) = []"
      using sw len GetLogs by auto
    have enq: "enqueued ?s0 = processed ?s0 @ [a] @ saveQueue ?s0"
      using ok s1 by (simp add: queue_ok_def)
    have sav: "isSaving s" using ok s1 by (auto simp: queue_ok_def split: if_splits)
    show ?thesis
    proof (cases "mergeLog (currentLogs ?s0) (deref ?s0 a)")
      case None
      then show ?thesis using GetLogs queue_ok_release[OF enq s0]
        by (simp add: callback_def onGetLogs_def Let_def)
    next
      case (Some nl)
      then show ?thesis using GetLogs enq s0 sav
        by (simp add: callback_def onGetLogs_def Let_def queue_ok_def)
    qed
  next
    case (SetLogs a nl)
    have len: "length (saving (inflight s)) \<le> 1" using ok by (simp add: queue_ok_def)
    have s1: "saving (inflight s) = [a]" and s0: "saving (inflight ?s0) = []"
      using sw len SetLogs by auto
    have enq: "enqueued ?s0 = processed ?s0 @ [a] @ saveQueue ?s0"
      using ok s1 by (simp add: queue_ok_def)
    have "queue_ok (let s1 = (?s0\<lparr>logs := Some nl\<rparr>)\<lparr>isSaving := False, processed := processed (?s0\<lparr>logs := Some nl\<rparr>) @ [a]\<rparr>
                   in if saveQueue s1 \<noteq> [] then processQueue s1 else s1)"
      using enq s0 by (intro queue_ok_release) simp_all
    then show ?thesis using SetLogs
      by (simp add: callback_def onSetLogs_def Let_def)
  qed
qed

lemma queue_ok_step: "queue_ok s \<Longrightarrow> queue_ok (step h e s)"
proof (cases e)
  case (Deliver k now)
  assume "queue_ok s"
  then show ?thesis using Deliver queue_ok_Deliver by (simp add: step_def)
next
  case (Timeout k)
  assume ok: "queue_ok s"
  have "queue_ok (step h e s) = queue_ok s"
    using Timeout by (intro queue_ok_cong) (simp_all add: step_def onTimeout_def)
  then show ?thesis using ok by simp
next
  case (SetRecording b)
  assume ok: "queue_ok s"
  have "queue_ok (step h e s) = queue_ok s"
    using SetRecording by (intro queue_ok_cong) (simp_all add: step_def)
  then show ?thesis using ok by simp
qed (simp_all add: step_def onBeforeRequest_def onBeforeSendHeaders_def onHeadersReceived_def
      queue_ok_onCompleted queue_ok_onErrorOccurred queue_ok_issue)

lemma queue_ok_run: "queue_ok (run h es installed)"
proof (induction es rule: rev_induct)
  case Nil
  show ?case by (simp add: run_def installed_def queue_ok_def)
next
  case (snoc e es)
  then show ?case by (simp add: run_snoc queue_ok_step)
qed

subsection \<open>The capacity of the store\<close>

lemma currentLogs_cong: "logs s' = logs s \<Longrightarrow> currentLogs s' = currentLogs s"
  by (simp add: currentLogs_def)

lemma set_without: "set (without k xs) \<subseteq> set xs"
  unfolding without_def by (auto dest: in_set_takeD in_set_dropD)

lemma getOrCreatePending_snd [simp]:
  "isSaving (snd (getOrCreatePending rid now s)) = isSaving s"
  "saveQueue (snd (getOrCreatePending rid now s)) = saveQueue s"
  "inflight (snd (getOrCreatePending rid now s)) = inflight s"
  "timers (snd (getOrCreatePending rid now s)) = timers s"
  "isRecording (snd (getOrCreatePending rid now s)) = isRecording s"
  "logs (snd (getOrCreatePending rid now s)) = logs s"
  "enqueued (snd (getOrCreatePending rid now s)) = enqueued s"
  "processed (snd (getOrCreatePending rid now s)) = processed s"
  "handled (snd (getOrCreatePending rid now s)) = handled s"
  by (simp_all add: getOrCreatePending_def Let_def split: option.splits)

lemma saveLog_writes:
  "SetLogs a nl \<in> set (inflight (saveLog p s)) \<longleftrightarrow> SetLogs a nl \<in> set (inflight s)"
  by (auto simp: saveLog_queue)

lemma processQueue_writes:
  "SetLogs a nl \<in> set (inflight (processQueue s)) \<longleftrightarrow> SetLogs a nl \<in> set (inflight s)"
  by (auto simp: processQueue_def split: list.splits)

lemma handler_store:
  "logs (onBeforeRequest_cb h d now s) = logs s"
  "logs (onBeforeSendHeaders_cb d now s) = logs s"
  "logs (onHeadersReceived_cb d now s) = logs s"
  "logs (onCompleted d s) = logs s"
  "logs (onErrorOccurred d s) = logs s"
  "processed (onBeforeRequest_cb h d now s) = processed s"
  "processed (onBeforeSendHeaders_cb d now s) = processed s"
  "processed (onHeadersReceived_cb d now s) = processed s"
  "processed (onCompleted d s) = processed s"
  "processed (onErrorOccurred d s) = processed s"
  by (simp_all add: onBeforeRequest_cb_def onBeforeSendHeaders_cb_def onHeadersReceived_cb_def
      onCompleted_def onErrorOccurred_def Let_def case_prod_beta split: option.splits)

lemma handler_writes:
  "SetLogs a nl \<in> set (inflight (onBeforeRequest_cb h d now s)) \<longleftrightarrow> SetLogs a nl \<in> set (inflight s)"
  "SetLogs a nl \<in> set (inflight (onBeforeSendHeaders_cb d now s)) \<longleftrightarrow> SetLogs a nl \<in> set (inflight s)"
  "SetLogs a nl \<in> set (inflight (onHeadersReceived_cb d now s)) \<longleftrightarrow> SetLogs a nl \<in> set (inflight s)"
  "SetLogs a nl \<in> set (inflight (onCompleted d s)) \<longleftrightarrow> SetLogs a nl \<in> set (inflight s)"
  "SetLogs a nl \<in> set (inflight (onErrorOccurred d s)) \<longleftrightarrow> SetLogs a nl \<in> set (inflight s)"
  by (simp_all add: onBeforeRequest_cb_def onBeforeSendHeaders_cb_def onHeadersReceived_cb_def
      onCompleted_def onErrorOccurred_def Let_def case_prod_beta saveLog_writes split: option.splits)






subsection \<open>The store is the fold of the processed snapshots\<close>

lemma queue_ok_subsets:
  assumes "queue_ok s"
  shows "set (processed s) \<subseteq> set (enqueued s)"
    and "set (saveQueue s) \<subseteq> set (enqueued s)"
    and "set (saving (inflight s)) \<subseteq> set (enqueued s)"
  using assms by (auto simp: queue_ok_def)

lemma saving_mem:
  "SetLogs a nl \<in> set xs \<Longrightarrow> a \<in> set (saving xs)"
  "GetLogs a \<in> set xs \<Longrightarrow> a \<in> set (saving xs)"
  by (induction xs) (auto simp: saving_def)

lemma deref_cong: "objs s' = objs s \<Longrightarrow> hmaps s' = hmaps s \<Longrightarrow> deref s' = deref s"
  by (rule ext) (simp add: deref_def)

lemma deref_upd [simp]:
  "deref (s\<lparr>pendingRequests := p\<rparr>) = deref s"
  "deref (s\<lparr>isSaving := b\<rparr>) = deref s"
  "deref (s\<lparr>saveQueue := q\<rparr>) = deref s"
  "deref (s\<lparr>inflight := i\<rparr>) = deref s"
  "deref (s\<lparr>timers := t\<rparr>) = deref s"
  "deref (s\<lparr>isRecording := r\<rparr>) = deref s"
  "deref (s\<lparr>logs := l\<rparr>) = deref s"
  "deref (s\<lparr>enqueued := e\<rparr>) = deref s"
  "deref (s\<lparr>processed := pr\<rparr>) = deref s"
  "deref (s\<lparr>handled := hs\<rparr>) = deref s"
  "deref (processQueue s) = deref s"
  "deref (issue x s) = deref s"
  "deref (mark k d s) = deref s"
  by (rule deref_cong; simp)+

lemma currentLogs_upd [simp]:
  "currentLogs (s\<lparr>pendingRequests := p\<rparr>) = currentLogs s"
  "currentLogs (s\<lparr>isSaving := b\<rparr>) = currentLogs s"
  "currentLogs (s\<lparr>saveQueue := q\<rparr>) = currentLogs s"
  "currentLogs (s\<lparr>inflight := i\<rparr>) = currentLogs s"
  "currentLogs (s\<lparr>timers := t\<rparr>) = currentLogs s"
  "currentLogs (s\<lparr>isRecording := r\<rparr>) = currentLogs s"
  "currentLogs (s\<lparr>enqueued := e\<rparr>) = currentLogs s"
  "currentLogs (s\<lparr>processed := pr\<rparr>) = currentLogs s"
  "currentLogs (s\<lparr>handled := hs\<rparr>) = currentLogs s"
  "currentLogs (s\<lparr>logs := Some nl\<rparr>) = nl"
  "currentLogs (processQueue s) = currentLogs s"
  "currentLogs (issue x s) = currentLogs s"
  by (simp_all add: currentLogs_def)

lemma store_ok_processQueue [simp]: "store_ok (processQueue s) = store_ok s"
  by (simp add: store_ok_def processQueue_writes)

lemma store_ok_frame:
  assumes ok: "heap_ok s" and q: "queue_ok s" and st: "store_ok s"
    and ext: "extends s s'"
    and l: "logs s' = logs s" and p: "processed s' = processed s"
    and w: "\<And>a nl. SetLogs a nl \<in> set (inflight s') \<Longrightarrow> SetLogs a nl \<in> set (inflight s)"
  shows "store_ok s'"
proof -
  have d: "deref s' a = deref s a" if "a \<in> set (enqueued s)" for a
    using deref_extends[OF ok ext that] .
  have m: "map (deref s') (processed s) = map (deref s) (processed s)"
    using d queue_ok_subsets(1)[OF q] by (auto simp: subset_iff)
  have c: "currentLogs s' = currentLogs s" using l by (simp add: currentLogs_def)
  have "mergeLog (currentLogs s') (deref s' a) = Some nl" if "SetLogs a nl \<in> set (inflight s')" for a nl
  proof -
    have i: "SetLogs a nl \<in> set (inflight s)" using w that .
    then have "a \<in> set (enqueued s)"
      using saving_mem(1) queue_ok_subsets(3)[OF q] by blast
    then show ?thesis using st i c d by (simp add: store_ok_def)
  qed
  moreover have "logs s' = Some (foldl applyLog [] (map (deref s') (processed s')))"
    using st by (simp only: l p m store_ok_def)
  ultimately show ?thesis by (simp add: store_ok_def)
qed

lemma saving_empty_no_write: "saving xs = [] \<Longrightarrow> SetLogs a nl \<notin> set xs"
  using saving_mem(1) by fastforce

lemma foldl_applyLog_snoc:
  "foldl applyLog ls (map f (xs @ [a])) = applyLog (foldl applyLog ls (map f xs)) (f a)"
  by simp

lemma store_ok_callback:
  assumes ok: "heap_ok s" and q: "queue_ok s" and st: "store_ok s" and k: "k < length (inflight s)"
  shows "store_ok (callback h (inflight s ! k) now (s\<lparr>inflight := without k (inflight s)\<rparr>))"
proof -
  let ?s0 = "s\<lparr>inflight := without k (inflight s)\<rparr>"
  note sw = saving_without[OF k]
  have ok0: "heap_ok ?s0" using ok by (simp add: heap_ok_def)
  have e0: "extends s ?s0" by (simp add: extends_def)
  have w0: "SetLogs a nl \<in> set (inflight ?s0) \<Longrightarrow> SetLogs a nl \<in> set (inflight s)" for a nl
    using set_without[of k "inflight s"] by auto
  have st0: "store_ok ?s0"
    using st w0 by (simp add: store_ok_def)
  have d0: "deref ?s0 = deref s" by simp
  have cur: "logs s = Some (currentLogs s)" using st by (simp add: store_ok_def currentLogs_def)
  have fd: "foldl applyLog [] (map (deref s) (processed s)) = currentLogs s"
    using st by (simp add: store_ok_def currentLogs_def)
  show ?thesis
  proof (cases "inflight s ! k")
    case (GetRecording c)
    then have "saving (inflight ?s0) = saving (inflight s)" using sw by simp
    then have q0: "queue_ok ?s0" using q by (simp add: queue_ok_def)
    have "store_ok (onBeforeRequest_cb h d now ?s0)" for d
      by (rule store_ok_frame[OF ok0 q0 st0 extends_onBeforeRequest_cb[OF ok0]])
         (simp_all add: handler_store handler_writes)
    moreover have "store_ok (onBeforeSendHeaders_cb d now ?s0)" for d
      by (rule store_ok_frame[OF ok0 q0 st0 extends_onBeforeSendHeaders_cb[OF ok0]])
         (simp_all add: handler_store handler_writes)
    moreover have "store_ok (onHeadersReceived_cb d now ?s0)" for d
      by (rule store_ok_frame[OF ok0 q0 st0 extends_onHeadersReceived_cb[OF ok0]])
         (simp_all add: handler_store handler_writes)
    ultimately show ?thesis using GetRecording by (simp add: callback_def split: cont.splits)
  next
    case (GetLogs a)
    have len: "length (saving (inflight s)) \<le> 1" using q by (simp add: queue_ok_def)
    have s0: "saving (inflight ?s0) = []" using sw len GetLogs by auto
    show ?thesis
    proof (cases "mergeLog (currentLogs s) (deref s a)")
      case None
      let ?s1 = "?s0\<lparr>isSaving := False, processed := processed ?s0 @ [a]\<rparr>"
      have a1: "applyLog (currentLogs s) (deref s a) = currentLogs s"
        using None by (simp add: applyLog_def)
      have "foldl applyLog [] (map (deref s) (processed s @ [a]))
          = applyLog (foldl applyLog [] (map (deref s) (processed s))) (deref s a)"
        by simp
      then have fold1: "foldl applyLog [] (map (deref s) (processed s @ [a])) = currentLogs s"
        by (simp only: fd a1)
      have e1: "deref ?s1 = deref s" "processed ?s1 = processed s @ [a]" "logs ?s1 = logs s"
        by simp_all
      have l1: "logs ?s1 = Some (foldl applyLog [] (map (deref ?s1) (processed ?s1)))"
        by (simp only: e1 cur fold1)
      have n1: "SetLogs b nl' \<notin> set (inflight ?s1)" for b nl'
        using saving_empty_no_write[OF s0] by simp
      have st1: "store_ok ?s1"
        unfolding store_ok_def using l1 n1 by blast
      have "store_ok (processQueue ?s1)"
        using st1 by (simp only: store_ok_processQueue)
      then show ?thesis using GetLogs None st1
        by (simp add: callback_def onGetLogs_def Let_def)
    next
      case (Some nl)
      have "store_ok (issue (SetLogs a nl) ?s0)"
        using st0 Some by (auto simp: store_ok_def)
      then show ?thesis using GetLogs Some
        by (simp add: callback_def onGetLogs_def)
    qed
  next
    case (SetLogs a nl)
    have len: "length (saving (inflight s)) \<le> 1" using q by (simp add: queue_ok_def)
    have s0: "saving (inflight ?s0) = []" using sw len SetLogs by auto
    have "SetLogs a nl \<in> set (inflight s)" using k SetLogs by (metis nth_mem)
    then have m: "mergeLog (currentLogs s) (deref s a) = Some nl" using st by (simp add: store_ok_def)
    then have a1: "applyLog (currentLogs s) (deref s a) = nl" by (simp add: applyLog_def)
    let ?s1 = "?s0\<lparr>logs := Some nl, isSaving := False, processed := processed ?s0 @ [a]\<rparr>"
    have "foldl applyLog [] (map (deref s) (processed s @ [a]))
        = applyLog (foldl applyLog [] (map (deref s) (processed s))) (deref s a)"
      by simp
    then have fold1: "foldl applyLog [] (map (deref s) (processed s @ [a])) = nl"
      by (simp only: fd a1)
    have e1: "deref ?s1 = deref s" "processed ?s1 = processed s @ [a]" "logs ?s1 = Some nl"
      by simp_all
    have l1: "logs ?s1 = Some (foldl applyLog [] (map (deref ?s1) (processed ?s1)))"
      by (simp only: e1 fold1)
    have n1: "SetLogs b nl' \<notin> set (inflight ?s1)" for b nl'
      using saving_empty_no_write[OF s0] by simp
    have st1: "store_ok ?s1"
      unfolding store_ok_def using l1 n1 by blast
    have "store_ok (processQueue ?s1)"
      using st1 by (simp only: store_ok_processQueue)
    then show ?thesis using SetLogs st1
      by (simp add: callback_def onSetLogs_def Let_def)
  qed
qed

lemma store_ok_step:
  assumes ok: "heap_ok s" and q: "queue_ok s" and st: "store_ok s"
  shows "store_ok (step h e s)"
proof (cases e)
  case (Deliver k now)
  then show ?thesis using store_ok_callback[OF ok q st] st by (simp add: step_def)
next
  case (Completed d)
  have "store_ok (onCompleted d s)"
    by (rule store_ok_frame[OF ok q st extends_onCompleted[OF ok]])
       (simp_all add: handler_store handler_writes)
  then show ?thesis using Completed by (simp add: step_def)
next
  case (ErrorOccurred d)
  have "store_ok (onErrorOccurred d s)"
    by (rule store_ok_frame[OF ok q st extends_onErrorOccurred[OF ok]])
       (simp_all add: handler_store handler_writes)
  then show ?thesis using ErrorOccurred by (simp add: step_def)
next
  case (BeforeRequest d)
  have "store_ok (step h e s)"
    by (rule store_ok_frame[OF ok q st extends_step[OF ok]])
       (auto simp: BeforeRequest step_def onBeforeRequest_def split: if_splits)
  then show ?thesis .
next
  case (BeforeSendHeaders d)
  have "store_ok (step h e s)"
    by (rule store_ok_frame[OF ok q st extends_step[OF ok]])
       (auto simp: BeforeSendHeaders step_def onBeforeSendHeaders_def split: if_splits)
  then show ?thesis .
next
  case (HeadersReceived d)
  have "store_ok (step h e s)"
    by (rule store_ok_frame[OF ok q st extends_step[OF ok]])
       (auto simp: HeadersReceived step_def onHeadersReceived_def split: if_splits)
  then show ?thesis .
next
  case (Timeout k)
  have "store_ok (step h e s)"
    by (rule store_ok_frame[OF ok q st extends_step[OF ok]])
       (auto simp: Timeout step_def onTimeout_def split: if_splits)
  then show ?thesis .
next
  case (SetRecording b)
  have "store_ok (step h e s)"
    by (rule store_ok_frame[OF ok q st extends_step[OF ok]])
       (auto simp: SetRecording step_def)
  then show ?thesis .
qed

lemma store_ok_run: "store_ok (run h es installed)"
proof (induction es rule: rev_induct)
  case Nil
  show ?case by (simp add: run_def installed_def store_ok_def)
next
  case (snoc e es)
  then show ?case
    using store_ok_step[OF heap_ok_run queue_ok_run] by (simp add: run_snoc)
qed

subsection \<open>What the listener bodies do to the entry\<close>

lemma save_modify_effect:
  assumes "a < length (objs s)"
  shows "objs (saveLog a (modify a f s)) = (objs s)[a := f (objs s ! a)] @ [f (objs s ! a)]"
    and "enqueued (saveLog a (modify a f s)) = enqueued s @ [length (objs s)]"
    and "objs (saveLog a (modify a f s)) ! a = f (objs s ! a)"
    and "objs (saveLog a (modify a f s)) ! length (objs s) = f (objs s ! a)"
  using assms by (simp_all add: nth_append)

lemma getOrCreatePending_old:
  "pendingRequests s rid = Some a \<Longrightarrow> getOrCreatePending rid now s = (a, s)"
  by (simp add: getOrCreatePending_def)

lemma getOrCreatePending_new:
  "pendingRequests s rid = None \<Longrightarrow>
   fst (getOrCreatePending rid now s) = length (objs s)
   \<and> objs (snd (getOrCreatePending rid now s)) ! length (objs s)
       = \<lparr> log_id = rid, url = None, req_method = None, rtype = None,
           status = Some 0, timestamp = Some now,
           requestHeaders = Some (length (hmaps s)), responseHeaders = Some (Suc (length (hmaps s))),
           requestBody = None, error = None \<rparr>
   \<and> length (objs (snd (getOrCreatePending rid now s))) = Suc (length (objs s))
   \<and> hmaps (snd (getOrCreatePending rid now s)) = hmaps s @ [[], []]
   \<and> pendingRequests (snd (getOrCreatePending rid now s)) = (pendingRequests s)(rid \<mapsto> length (objs s))"
  by (simp add: getOrCreatePending_def Let_def)

lemma setBody_body:
  "requestBody (setBody h d l) =
     (case d_requestBody d of
        None \<Rightarrow> requestBody l
      | Some rb \<Rightarrow>
          (case raw rb of
             Some (u # us) \<Rightarrow>
               Some (BodyText (case decode h (bytes u) of Some t \<Rightarrow> t | None \<Rightarrow> ''[Binary Data]''))
           | _ \<Rightarrow> (case formData rb of Some f \<Rightarrow> Some (BodyForm f) | None \<Rightarrow> requestBody l)))"
  by (simp add: setBody_def split: option.splits list.splits)

lemma setBody_other:
  "url (setBody h d l) = url l" "req_method (setBody h d l) = req_method l"
  "rtype (setBody h d l) = rtype l" "status (setBody h d l) = status l"
  "timestamp (setBody h d l) = timestamp l" "error (setBody h d l) = error l"
  by (simp_all add: setBody_def split: option.splits list.splits)

subsection \<open>Every snapshot is a new object\<close>

lemma run_append: "run h (es @ es') s = run h es' (run h es s)"
  by (simp add: run_def)

lemma getOrCreatePending_length:
  "length (objs s) \<le> length (objs (snd (getOrCreatePending rid now s)))"
  by (simp add: getOrCreatePending_def Let_def split: option.splits)

lemma enqueued_step:
  "enqueued (step h e s) = enqueued s
   \<or> (\<exists>c\<ge>length (objs s). enqueued (step h e s) = enqueued s @ [c])"
proof (cases e)
  case (Deliver k now)
  let ?s0 = "s\<lparr>inflight := without k (inflight s)\<rparr>"
  have l: "length (objs s) \<le> length (objs (snd (getOrCreatePending rid now ?s0)))" for rid
    using getOrCreatePending_length[of ?s0 rid now] by simp
  show ?thesis
  proof (cases "k < length (inflight s)")
    case False
    then show ?thesis using Deliver by (simp add: step_def)
  next
    case True
    show ?thesis
    proof (cases "inflight s ! k")
      case (GetRecording c)
      then show ?thesis using Deliver True l
        by (cases c)
           (auto simp: step_def callback_def onBeforeRequest_cb_def onBeforeSendHeaders_cb_def
             onHeadersReceived_cb_def case_prod_beta Let_def)
    next
      case (GetLogs a)
      then show ?thesis using Deliver True
        by (auto simp: step_def callback_def onGetLogs_def Let_def split: option.splits)
    next
      case (SetLogs a nl)
      then show ?thesis using Deliver True
        by (auto simp: step_def callback_def onSetLogs_def Let_def)
    qed
  qed
qed (auto simp: step_def onBeforeRequest_def onBeforeSendHeaders_def onHeadersReceived_def
      onCompleted_def onErrorOccurred_def onTimeout_def Let_def split: option.splits)

lemma distinct_enqueued_run: "distinct (enqueued (run h es installed))"
proof (induction es rule: rev_induct)
  case Nil
  show ?case by (simp add: run_def installed_def)
next
  case (snoc e es)
  let ?s = "run h es installed"
  have b: "\<forall>a\<in>set (enqueued ?s). a < length (objs ?s)"
    using heap_ok_run[of h es] by (simp add: heap_ok_def)
  show ?case using enqueued_step[of h e ?s] snoc b by (fastforce simp: run_snoc)
qed

subsection \<open>The listener bodies on values\<close>

lemma resolve_grow:
  "(\<And>r. requestHeaders l = Some r \<or> responseHeaders l = Some r \<Longrightarrow> r < length ms) \<Longrightarrow>
   resolve (ms @ ms') l = resolve ms l"
  by (auto simp: resolve_def nth_append map_option_case split: option.splits)

lemma deref_grow:
  "heap_ok s \<Longrightarrow> x < length (objs s) \<Longrightarrow> deref (s\<lparr>hmaps := hmaps s @ ms\<rparr>) x = deref s x"
proof -
  assume ok: "heap_ok s" and x: "x < length (objs s)"
  have "resolve (hmaps s @ ms) (objs s ! x) = resolve (hmaps s) (objs s ! x)"
    using heap_ok_refsD[OF ok x] by (intro resolve_grow) blast
  then show ?thesis by (simp add: deref_def)
qed

lemma getOrCreatePending_value:
  assumes ok: "heap_ok s" and g: "getOrCreatePending rid now s = (a, s1)"
  shows "deref s1 a = entry s rid now"
    and "pendingRequests s1 = (pendingRequests s)(rid \<mapsto> a)"
    and "\<forall>p. pendingRequests s rid = Some p \<longrightarrow> a = p"
    and "\<forall>x<length (objs s). deref s1 x = deref s x"
    and "length (objs s) \<le> length (objs s1)"
proof -
  show "deref s1 a = entry s rid now"
  proof (cases "pendingRequests s rid")
    case None
    then show ?thesis using g
      by (auto simp: getOrCreatePending_def Let_def entry_def fresh_def deref_def resolve_def nth_append)
  next
    case (Some p)
    then show ?thesis using g by (auto simp: getOrCreatePending_def entry_def)
  qed
  show "pendingRequests s1 = (pendingRequests s)(rid \<mapsto> a)"
    using g by (auto simp: getOrCreatePending_def Let_def split: option.splits)
  show "\<forall>p. pendingRequests s rid = Some p \<longrightarrow> a = p"
    using g by (auto simp: getOrCreatePending_def)
  show "length (objs s) \<le> length (objs s1)"
    using getOrCreatePending_length[of s rid now] g by simp
  show "\<forall>x<length (objs s). deref s1 x = deref s x"
  proof (cases "pendingRequests s rid")
    case None
    then have s1: "s1 = s\<lparr>hmaps := hmaps s @ [[], []],
        objs := objs s @ [\<lparr> log_id = rid, url = None, req_method = None, rtype = None,
                         status = Some 0, timestamp = Some now,
                         requestHeaders = Some (length (hmaps s)),
                         responseHeaders = Some (Suc (length (hmaps s))),
                         requestBody = None, error = None \<rparr>],
        pendingRequests := (pendingRequests s)(rid \<mapsto> length (objs s))\<rparr>"
      using g by (auto simp: getOrCreatePending_def Let_def)
    show ?thesis
    proof (intro allI impI)
      fix x assume x: "x < length (objs s)"
      have "deref s1 x = resolve (hmaps s @ [[], []]) (objs s ! x)"
        using x by (simp add: s1 deref_def nth_append)
      also have "\<dots> = resolve (hmaps s) (objs s ! x)"
        using heap_ok_refsD[OF ok x] by (intro resolve_grow) blast
      finally show "deref s1 x = deref s x" by (simp add: deref_def)
    qed
  next
    case (Some p)
    then show ?thesis using g by (simp add: getOrCreatePending_def)
  qed
qed

lemma saveLog_recordings:
  "GetRecording c \<in> set (inflight (saveLog a s)) \<longleftrightarrow> GetRecording c \<in> set (inflight s)"
  by (auto simp: saveLog_queue)

lemma ran_save_modify:
  assumes ok: "heap_ok s2" and p: "pendingRequests s2 rid = Some a"
    and v: "resolve (hmaps s2) (f (objs s2 ! a)) = v"
  shows "pendingRequests (saveLog a (modify a f s2)) = pendingRequests s2"
    and "deref (saveLog a (modify a f s2)) a = v"
    and "enqueued (saveLog a (modify a f s2)) = enqueued s2 @ [length (objs s2)]"
    and "deref (saveLog a (modify a f s2)) (length (objs s2)) = v"
    and "handled (saveLog a (modify a f s2)) = handled s2"
    and "\<forall>x<length (objs s2). x \<noteq> a \<longrightarrow> deref (saveLog a (modify a f s2)) x = deref s2 x"
    and "\<forall>c. GetRecording c \<in> set (inflight (saveLog a (modify a f s2))) \<longrightarrow> GetRecording c \<in> set (inflight s2)"
    and "timers (saveLog a (modify a f s2)) = timers s2"
    and "isRecording (saveLog a (modify a f s2)) = isRecording s2"
proof -
  have a: "a < length (objs s2)" using heap_ok_pendingD[OF ok p] .
  show "deref (saveLog a (modify a f s2)) a = v"
    "deref (saveLog a (modify a f s2)) (length (objs s2)) = v"
    using a v by (simp_all add: deref_def nth_append)
  show "\<forall>x<length (objs s2). x \<noteq> a \<longrightarrow> deref (saveLog a (modify a f s2)) x = deref s2 x"
    by (simp add: deref_def nth_append)
  show "\<forall>c. GetRecording c \<in> set (inflight (saveLog a (modify a f s2))) \<longrightarrow> GetRecording c \<in> set (inflight s2)"
    by (simp add: saveLog_recordings)
qed simp_all

lemma resolve_setBody: "resolve ms (setBody h d l) = setBody h d (resolve ms l)"
  by (simp add: setBody_def resolve_def split: option.splits list.splits)

lemma resolve_begin:
  "resolve ms (l\<lparr>url := u, req_method := m, rtype := t\<rparr>)
     = (resolve ms l)\<lparr>url := u, req_method := m, rtype := t\<rparr>"
  by (simp add: resolve_def)

lemma ran_body_compose:
  assumes ok: "heap_ok s" and g: "getOrCreatePending rid now s = (a, s1)"
    and s2: "s2 = mark k d (s1\<lparr>hmaps := hmaps s1 @ ms\<rparr>)"
    and v: "resolve (hmaps s1 @ ms) (f (objs s1 ! a)) = v"
  shows "ran_body s (saveLog a (modify a f s2)) rid a k d v"
proof -
  from heap_ok_getOrCreatePending[OF ok g]
  have ok1: "heap_ok s1" and p1: "pendingRequests s1 rid = Some a" by auto
  note gv = getOrCreatePending_value[OF ok g]
  note gf = getOrCreatePending_fields[OF g]
  have ok2: "heap_ok s2" using heap_ok_grow[OF ok1] by (simp add: s2)
  have p2: "pendingRequests s2 rid = Some a" using p1 by (simp add: s2)
  have v2: "resolve (hmaps s2) (f (objs s2 ! a)) = v" using v by (simp add: s2)
  note r = ran_save_modify[of s2 rid a f v, OF ok2 p2 v2]
  have o: "deref (saveLog a (modify a f s2)) x = deref s x" if "x < length (objs s)" "x \<noteq> a" for x
  proof -
    have x1: "x < length (objs s1)" using that(1) gv(5) by simp
    then have "deref (saveLog a (modify a f s2)) x = deref s2 x" using r(6) that(2) by (simp add: s2)
    also have "\<dots> = deref s1 x" using deref_grow[OF ok1 x1, of ms] by (simp add: s2 deref_def)
    also have "\<dots> = deref s x" using gv(4) that(1) by simp
    finally show ?thesis .
  qed
  show ?thesis
    unfolding ran_body_def
    using r(1,2,3,4,5,7,8,9) gv(2,3) gf o by (simp add: s2)
qed

lemma begin_effect:
  assumes ok: "heap_ok s" and r: "isRecording s"
  shows "\<exists>a. ran_body s (onBeforeRequest_cb h d now s) (requestId d) a HBeforeRequest d
           (setBody h d ((entry s (requestId d) now)
              \<lparr>url := Some (d_url d), req_method := Some (d_method d), rtype := Some (d_type d)\<rparr>))"
proof -
  obtain a s1 where g: "getOrCreatePending (requestId d) now s = (a, s1)" by fastforce
  let ?f = "\<lambda>l. setBody h d (l\<lparr>url := Some (d_url d), req_method := Some (d_method d), rtype := Some (d_type d)\<rparr>)"
  have s': "onBeforeRequest_cb h d now s = saveLog a (modify a ?f (mark HBeforeRequest d (s1\<lparr>hmaps := hmaps s1 @ []\<rparr>)))"
    using r g by (simp add: onBeforeRequest_cb_def)
  have v: "resolve (hmaps s1 @ []) (?f (objs s1 ! a))
      = setBody h d ((entry s (requestId d) now)
              \<lparr>url := Some (d_url d), req_method := Some (d_method d), rtype := Some (d_type d)\<rparr>)"
    using getOrCreatePending_value(1)[OF ok g]
    by (simp add: resolve_setBody resolve_begin deref_def[symmetric])
  show ?thesis unfolding s'
    using ran_body_compose[where f="?f" and k=HBeforeRequest and d=d and ms="[]", OF ok g refl v]
    by blast
qed

lemma send_effect:
  assumes ok: "heap_ok s" and r: "isRecording s"
  shows "\<exists>a. ran_body s (onBeforeSendHeaders_cb d now s) (requestId d) a HBeforeSendHeaders d
           ((entry s (requestId d) now)
              \<lparr>requestHeaders := Some (assign (case requestHeaders (entry s (requestId d) now) of
                    None \<Rightarrow> [] | Some m \<Rightarrow> m) (collect (d_requestHeaders d)))\<rparr>)"
proof -
  obtain a s1 where g: "getOrCreatePending (requestId d) now s = (a, s1)" by fastforce
  from heap_ok_getOrCreatePending[OF ok g]
  have ok1: "heap_ok s1" and p1: "pendingRequests s1 (requestId d) = Some a" by auto
  have a: "a < length (objs s1)" using heap_ok_pendingD[OF ok1 p1] .
  define m where "m = assign (case requestHeaders (objs s1 ! a) of None \<Rightarrow> [] | Some r \<Rightarrow> hmaps s1 ! r) (collect (d_requestHeaders d))"
  let ?f = "\<lambda>l. l\<lparr>requestHeaders := Some (length (hmaps s1))\<rparr>"
  have s': "onBeforeSendHeaders_cb d now s = saveLog a (modify a ?f (mark HBeforeSendHeaders d (s1\<lparr>hmaps := hmaps s1 @ [m]\<rparr>)))"
    using r g by (simp add: onBeforeSendHeaders_cb_def Let_def m_def)
  have e: "deref s1 a = entry s (requestId d) now" using getOrCreatePending_value(1)[OF ok g] .
  have refs: "\<And>r. requestHeaders (objs s1 ! a) = Some r \<or> responseHeaders (objs s1 ! a) = Some r \<Longrightarrow> r < length (hmaps s1)"
    using heap_ok_refsD[OF ok1 a] by blast
  have m': "m = assign (case requestHeaders (entry s (requestId d) now) of None \<Rightarrow> [] | Some m \<Rightarrow> m) (collect (d_requestHeaders d))"
    unfolding m_def e[symmetric] by (simp add: deref_def resolve_def split: option.splits)
  have "resolve (hmaps s1 @ [m]) (?f (objs s1 ! a)) = (resolve (hmaps s1 @ [m]) (objs s1 ! a))\<lparr>requestHeaders := Some m\<rparr>"
    by (simp add: resolve_def)
  also have "\<dots> = (deref s1 a)\<lparr>requestHeaders := Some m\<rparr>"
    using resolve_grow[OF refs] by (simp add: deref_def)
  finally have v: "resolve (hmaps s1 @ [m]) (?f (objs s1 ! a)) = (entry s (requestId d) now)\<lparr>requestHeaders := Some m\<rparr>"
    using e by simp
  show ?thesis unfolding s' m'[symmetric]
    using ran_body_compose[where f="?f" and k=HBeforeSendHeaders and d=d and ms="[m]", OF ok g refl v]
    by blast
qed

lemma recv_effect:
  assumes ok: "heap_ok s" and r: "isRecording s"
  shows "\<exists>a. ran_body s (onHeadersReceived_cb d now s) (requestId d) a HHeadersReceived d
           ((entry s (requestId d) now)
              \<lparr>responseHeaders := Some (assign (case responseHeaders (entry s (requestId d) now) of
                    None \<Rightarrow> [] | Some m \<Rightarrow> m) (collect (d_responseHeaders d)))\<rparr>)"
proof -
  obtain a s1 where g: "getOrCreatePending (requestId d) now s = (a, s1)" by fastforce
  from heap_ok_getOrCreatePending[OF ok g]
  have ok1: "heap_ok s1" and p1: "pendingRequests s1 (requestId d) = Some a" by auto
  have a: "a < length (objs s1)" using heap_ok_pendingD[OF ok1 p1] .
  define m where "m = assign (case responseHeaders (objs s1 ! a) of None \<Rightarrow> [] | Some r \<Rightarrow> hmaps s1 ! r) (collect (d_responseHeaders d))"
  let ?f = "\<lambda>l. l\<lparr>responseHeaders := Some (length (hmaps s1))\<rparr>"
  have s': "onHeadersReceived_cb d now s = saveLog a (modify a ?f (mark HHeadersReceived d (s1\<lparr>hmaps := hmaps s1 @ [m]\<rparr>)))"
    using r g by (simp add: onHeadersReceived_cb_def Let_def m_def)
  have e: "deref s1 a = entry s (requestId d) now" using getOrCreatePending_value(1)[OF ok g] .
  have refs: "\<And>r. requestHeaders (objs s1 ! a) = Some r \<or> responseHeaders (objs s1 ! a) = Some r \<Longrightarrow> r < length (hmaps s1)"
    using heap_ok_refsD[OF ok1 a] by blast
  have m': "m = assign (case responseHeaders (entry s (requestId d) now) of None \<Rightarrow> [] | Some m \<Rightarrow> m) (collect (d_responseHeaders d))"
    unfolding m_def e[symmetric] by (simp add: deref_def resolve_def split: option.splits)
  have "resolve (hmaps s1 @ [m]) (?f (objs s1 ! a)) = (resolve (hmaps s1 @ [m]) (objs s1 ! a))\<lparr>responseHeaders := Some m\<rparr>"
    by (simp add: resolve_def)
  also have "\<dots> = (deref s1 a)\<lparr>responseHeaders := Some m\<rparr>"
    using resolve_grow[OF refs] by (simp add: deref_def)
  finally have v: "resolve (hmaps s1 @ [m]) (?f (objs s1 ! a)) = (entry s (requestId d) now)\<lparr>responseHeaders := Some m\<rparr>"
    using e by simp
  show ?thesis unfolding s' m'[symmetric]
    using ran_body_compose[where f="?f" and k=HHeadersReceived and d=d and ms="[m]", OF ok g refl v]
    by blast
qed

lemma completed_effect:
  assumes ok: "heap_ok s" and p: "pendingRequests s (requestId d) = Some a" and api: "isApiRequest d"
  shows "\<exists>s1. onCompleted d s = s1\<lparr>timers := timers s1 @ [requestId d]\<rparr>
     \<and> ran_body s s1 (requestId d) a HCompleted d ((deref s a)\<lparr>status := Some (statusCode d)\<rparr>)"
proof -
  let ?f = "\<lambda>l. l\<lparr>status := Some (statusCode d)\<rparr>"
  let ?s1 = "saveLog a (modify a ?f (mark HCompleted d (s\<lparr>hmaps := hmaps s @ []\<rparr>)))"
  have g: "getOrCreatePending (requestId d) 0 s = (a, s)" using p by (rule getOrCreatePending_old)
  have s': "onCompleted d s = ?s1\<lparr>timers := timers ?s1 @ [requestId d]\<rparr>"
    using p api by (simp add: onCompleted_def Let_def)
  have v: "resolve (hmaps s @ []) (?f (objs s ! a)) = (deref s a)\<lparr>status := Some (statusCode d)\<rparr>"
    by (simp add: deref_def resolve_def)
  show ?thesis
    using s' ran_body_compose[where f="?f" and k=HCompleted and d=d and ms="[]", OF ok g refl v]
    by blast
qed

lemma error_effect:
  assumes ok: "heap_ok s" and p: "pendingRequests s (requestId d) = Some a" and api: "isApiRequest d"
  shows "\<exists>s1. onErrorOccurred d s = s1\<lparr>pendingRequests := (pendingRequests s1)(requestId d := None)\<rparr>
     \<and> ran_body s s1 (requestId d) a HErrorOccurred d
          ((deref s a)\<lparr>status := Some 0, error := Some (d_error d)\<rparr>)"
proof -
  let ?f = "\<lambda>l. l\<lparr>status := Some 0, error := Some (d_error d)\<rparr>"
  let ?s1 = "saveLog a (modify a ?f (mark HErrorOccurred d (s\<lparr>hmaps := hmaps s @ []\<rparr>)))"
  have g: "getOrCreatePending (requestId d) 0 s = (a, s)" using p by (rule getOrCreatePending_old)
  have s': "onErrorOccurred d s = ?s1\<lparr>pendingRequests := (pendingRequests ?s1)(requestId d := None)\<rparr>"
    using p api by (simp add: onErrorOccurred_def Let_def)
  have v: "resolve (hmaps s @ []) (?f (objs s ! a)) = (deref s a)\<lparr>status := Some 0, error := Some (d_error d)\<rparr>"
    by (simp add: deref_def resolve_def)
  show ?thesis
    using s' ran_body_compose[where f="?f" and k=HErrorOccurred and d=d and ms="[]", OF ok g refl v]
    by blast
qed

subsection \<open>The record of one request\<close>

lemma latest_Nil [simp]: "latest k f [] = None"
  by (simp add: latest_def)

lemma latest_snoc:
  "latest k f (hs @ [(k', d)]) = (if k' = k then Some (f d) else latest k f hs)"
  by (simp add: latest_def)

lemma latest_SomeD: "latest k f hs = Some u \<Longrightarrow> \<exists>d. (k, d) \<in> set hs \<and> f d = u"
proof -
  assume a: "latest k f hs = Some u"
  let ?xs = "filter (\<lambda>x. fst x = k) hs"
  have ne: "?xs \<noteq> []" and u: "u = f (snd (last ?xs))"
    using a by (auto simp: latest_def Let_def split: if_splits)
  have "last ?xs \<in> set ?xs" using ne by (rule last_in_set)
  then have "fst (last ?xs) = k \<and> last ?xs \<in> set hs" by auto
  then show ?thesis using u by (metis prod.collapse)
qed

lemma merged_Nil [simp]: "merged k f [] = []"
  by (simp add: merged_def)

lemma merged_snoc:
  "merged k f (hs @ [(k', d)]) = (if k' = k then assign (merged k f hs) (collect (f d)) else merged k f hs)"
  by (simp add: merged_def)

lemma union_exact_fresh: "union_exact [] (fresh i now)"
  by (simp add: union_exact_def fresh_def)

lemma over_covers: "(x \<noteq> None \<longrightarrow> y \<noteq> None) \<Longrightarrow> over x y = y"
  by (cases x; cases y; simp add: over_def)

lemma spread_covers:
  assumes "covers b a"
  shows "spread a b = b"
proof -
  have "over (url a) (url b) = url b" "over (req_method a) (req_method b) = req_method b"
    "over (rtype a) (rtype b) = rtype b" "over (status a) (status b) = status b"
    "over (timestamp a) (timestamp b) = timestamp b"
    "over (requestHeaders a) (requestHeaders b) = requestHeaders b"
    "over (responseHeaders a) (responseHeaders b) = responseHeaders b"
    "over (requestBody a) (requestBody b) = requestBody b"
    "over (error a) (error b) = error b"
    using assms by (simp_all add: covers_def over_covers)
  then show ?thesis by (simp add: spread_def)
qed

lemma covers_refl: "covers a a"
  by (simp add: covers_def)

lemma chain_snoc: "chain (xs @ [x]) = (chain xs \<and> (xs \<noteq> [] \<longrightarrow> covers x (last xs)))"
proof (induction xs rule: chain.induct)
  case 1
  show ?case by simp
next
  case (2 y)
  show ?case by simp
next
  case (3 y z zs)
  then show ?case by simp
qed

lemma fold_chain:
  "chain xs \<Longrightarrow>
   foldl applyLog [] xs = (if \<exists>x\<in>set xs. \<not> falsy (url x) then [last xs] else [])"
proof (induction xs rule: rev_induct)
  case Nil
  show ?case by simp
next
  case (snoc x xs)
  from snoc.prems have ch: "chain xs" and cv: "xs \<noteq> [] \<longrightarrow> covers x (last xs)"
    by (simp_all add: chain_snoc)
  note IH = snoc.IH[OF ch]
  show ?case
  proof (cases "\<exists>y\<in>set xs. \<not> falsy (url y)")
    case True
    then have ne: "xs \<noteq> []" by auto
    have f: "foldl applyLog [] xs = [last xs]" using IH True by simp
    have c: "covers x (last xs)" using cv ne by simp
    then have "applyLog [last xs] x = [x]"
      using spread_covers[OF c] by (simp add: applyLog_def mergeLog_def covers_def)
    then show ?thesis using f True by simp
  next
    case False
    then have f: "foldl applyLog [] xs = []" using IH by simp
    have "applyLog [] x = (if falsy (url x) then [] else [x])"
      by (simp add: applyLog_def mergeLog_def MAX_LOGS_def)
    then show ?thesis using f False by auto
  qed
qed

lemma correlated_entry:
  assumes "correlated i s"
  shows "union_exact (handled s) (entry s i now)" and "log_id (entry s i now) = i"
proof -
  show "union_exact (handled s) (entry s i now)"
  proof (cases "pendingRequests s i")
    case None
    then have "handled s = []" using assms by (simp add: correlated_def)
    then show ?thesis using None union_exact_fresh by (simp add: entry_def)
  next
    case (Some p)
    then show ?thesis using assms by (simp add: correlated_def entry_def)
  qed
  show "log_id (entry s i now) = i"
    using assms by (cases "pendingRequests s i") (simp_all add: correlated_def entry_def fresh_def)
qed

lemma correlated_ran:
  assumes ok: "heap_ok s" and c: "correlated i s"
    and r: "ran_body s s' i a k d v"
    and u: "union_exact (handled s @ [(k, d)]) v"
    and cv: "covers v (entry s i now)"
    and b: "(\<not> falsy (url v)) \<longleftrightarrow>
             (if k = HBeforeRequest then d_url d \<noteq> [] else \<not> falsy (url (entry s i now)))"
  shows "correlated i s'"
proof -
  from r obtain c' where
    p': "pendingRequests s' = (pendingRequests s)(i \<mapsto> a)"
    and old: "\<forall>p. pendingRequests s i = Some p \<longrightarrow> a = p"
    and va: "deref s' a = v"
    and enq: "enqueued s' = enqueued s @ [c']" and vc: "deref s' c' = v"
    and hd: "handled s' = handled s @ [(k, d)]"
    and oth: "\<forall>x<length (objs s). x \<noteq> a \<longrightarrow> deref s' x = deref s x"
    and rec: "\<forall>c. GetRecording c \<in> set (inflight s') \<longrightarrow> GetRecording c \<in> set (inflight s)"
    unfolding ran_body_def by blast
  have id: "log_id v = i" using cv correlated_entry(2)[OF c, of now] by (simp add: covers_def)
  have fr: "deref s' x = deref s x" if "x \<in> set (enqueued s)" for x
  proof -
    have x: "x < length (objs s)" using ok that by (simp add: heap_ok_def)
    have "pendingRequests s i \<noteq> None" using c that by (auto simp: correlated_def)
    then obtain p where p: "pendingRequests s i = Some p" by auto
    then have "a = p" using old by simp
    then have "x \<noteq> a" using ok p that by (auto simp: heap_ok_def)
    then show ?thesis using oth x by simp
  qed
  then have m: "map (deref s') (enqueued s) = map (deref s) (enqueued s)" by simp
  have c1: "\<forall>rid a. pendingRequests s' rid = Some a \<longrightarrow> rid = i"
    using c p' by (auto simp: correlated_def split: if_splits)
  have c2: "\<forall>c. GetRecording c \<in> set (inflight s') \<longrightarrow> requestId (cont_details c) = i"
    using c rec by (auto simp: correlated_def)
  have c3: "pendingRequests s' i = None \<longrightarrow> handled s' = [] \<and> enqueued s' = []"
    using p' by simp
  have c4: "\<forall>a'. pendingRequests s' i = Some a' \<longrightarrow>
            union_exact (handled s') (deref s' a') \<and> log_id (deref s' a') = i
            \<and> handled s' \<noteq> []
            \<and> enqueued s' \<noteq> [] \<and> deref s' (last (enqueued s')) = deref s' a'"
    using p' va vc enq hd u id by simp
  have last: "enqueued s \<noteq> [] \<longrightarrow> deref s (last (enqueued s)) = entry s i now"
  proof
    assume ne: "enqueued s \<noteq> []"
    then have "pendingRequests s i \<noteq> None" using c by (auto simp: correlated_def)
    then obtain p where p: "pendingRequests s i = Some p" by auto
    then show "deref s (last (enqueued s)) = entry s i now"
      using c by (simp add: correlated_def entry_def)
  qed
  have c5: "chain (map (deref s') (enqueued s'))"
  proof -
    have "chain (map (deref s) (enqueued s))" using c by (simp add: correlated_def)
    moreover have "map (deref s) (enqueued s) \<noteq> [] \<longrightarrow> covers v (last (map (deref s) (enqueued s)))"
      using last cv by (simp add: last_map)
    moreover have "map (deref s') (enqueued s') = map (deref s) (enqueued s) @ [v]"
      using vc by (simp only: enq map_append m list.map)
    ultimately show ?thesis by (simp only: chain_snoc)
  qed
  have ent: "\<not> falsy (url (entry s i now)) \<Longrightarrow>
      \<exists>d. (HBeforeRequest, d) \<in> set (handled s) \<and> d_url d \<noteq> []"
  proof -
    assume n: "\<not> falsy (url (entry s i now))"
    then obtain w where w: "url (entry s i now) = Some w" "w \<noteq> []"
      by (auto simp: falsy_def split: option.splits)
    have "latest HBeforeRequest d_url (handled s) = Some w"
      using correlated_entry(1)[OF c, of now] w by (simp add: union_exact_def)
    from latest_SomeD[OF this] show ?thesis using w by blast
  qed
  have old5: "(\<exists>x\<in>set (enqueued s). \<not> falsy (url (deref s x)))
           \<longleftrightarrow> (\<exists>d. (HBeforeRequest, d) \<in> set (handled s) \<and> d_url d \<noteq> [])"
    using c by (simp add: correlated_def)
  have c6: "(\<exists>x\<in>set (enqueued s'). \<not> falsy (url (deref s' x)))
           \<longleftrightarrow> (\<exists>d. (HBeforeRequest, d) \<in> set (handled s') \<and> d_url d \<noteq> [])"
  proof -
    have l: "(\<exists>x\<in>set (enqueued s'). \<not> falsy (url (deref s' x)))
        \<longleftrightarrow> (\<exists>x\<in>set (enqueued s). \<not> falsy (url (deref s x))) \<or> \<not> falsy (url v)"
      unfolding enq using fr vc by auto
    have rr: "(\<exists>d'. (HBeforeRequest, d') \<in> set (handled s') \<and> d_url d' \<noteq> [])
        \<longleftrightarrow> (\<exists>d'. (HBeforeRequest, d') \<in> set (handled s) \<and> d_url d' \<noteq> [])
            \<or> (k = HBeforeRequest \<and> d_url d \<noteq> [])"
      unfolding hd by auto
    show ?thesis
    proof (cases "k = HBeforeRequest")
      case True
      then show ?thesis using l rr old5 b by simp
    next
      case False
      then show ?thesis using l rr old5 b ent by auto
    qed
  qed
  show ?thesis unfolding correlated_def using c1 c2 c3 c4 c5 c6 by blast
qed

lemma correlated_cong:
  assumes "correlated i s"
    and "pendingRequests s' = pendingRequests s" and "handled s' = handled s"
    and "enqueued s' = enqueued s" and "objs s' = objs s" and "hmaps s' = hmaps s"
    and "\<And>c. GetRecording c \<in> set (inflight s') \<Longrightarrow> GetRecording c \<in> set (inflight s)"
  shows "correlated i s'"
proof -
  have d: "deref s' = deref s" using assms(5,6) by (rule deref_cong)
  show ?thesis using assms(1,7) unfolding correlated_def d assms(2,3,4) by blast
qed

lemma correlated_issue:
  assumes "correlated i s" and "requestId (cont_details c) = i"
  shows "correlated i (issue (GetRecording c) s)"
proof -
  have d: "deref (issue (GetRecording c) s) = deref s" by simp
  show ?thesis using assms unfolding correlated_def d by auto
qed

lemma processQueue_recordings:
  "GetRecording c \<in> set (inflight (processQueue s)) \<longleftrightarrow> GetRecording c \<in> set (inflight s)"
  by (auto simp: processQueue_def split: list.splits)

lemma onGetLogs_fields:
  "pendingRequests (onGetLogs a s) = pendingRequests s" "handled (onGetLogs a s) = handled s"
  "enqueued (onGetLogs a s) = enqueued s" "objs (onGetLogs a s) = objs s"
  "hmaps (onGetLogs a s) = hmaps s"
  "GetRecording c \<in> set (inflight (onGetLogs a s)) \<longleftrightarrow> GetRecording c \<in> set (inflight s)"
  by (auto simp: onGetLogs_def Let_def processQueue_recordings split: option.splits)

lemma onSetLogs_fields:
  "pendingRequests (onSetLogs a nl s) = pendingRequests s" "handled (onSetLogs a nl s) = handled s"
  "enqueued (onSetLogs a nl s) = enqueued s" "objs (onSetLogs a nl s) = objs s"
  "hmaps (onSetLogs a nl s) = hmaps s"
  "GetRecording c \<in> set (inflight (onSetLogs a nl s)) \<longleftrightarrow> GetRecording c \<in> set (inflight s)"
  by (auto simp: onSetLogs_def Let_def processQueue_recordings)

lemma setBody_covers:
  "requestBody l \<noteq> None \<Longrightarrow> requestBody (setBody h d l) \<noteq> None"
  by (simp add: setBody_def split: option.splits list.splits)

lemma correlated_begin:
  assumes ok: "heap_ok s" and c: "correlated i s" and r: "isRecording s" and i: "requestId d = i"
  shows "correlated i (onBeforeRequest_cb h d now s)"
proof -
  let ?e = "entry s i now"
  let ?v = "setBody h d (?e\<lparr>url := Some (d_url d), req_method := Some (d_method d), rtype := Some (d_type d)\<rparr>)"
  from begin_effect[OF ok r, of h d now] obtain a where
    rb: "ran_body s (onBeforeRequest_cb h d now s) i a HBeforeRequest d ?v" using i by auto
  note u = correlated_entry(1)[OF c, of now]
  have u': "union_exact (handled s @ [(HBeforeRequest, d)]) ?v"
    using u by (simp add: union_exact_def latest_snoc merged_snoc setBody_other setBody_keeps)
  have cv: "covers ?v ?e"
    by (simp add: covers_def setBody_other setBody_keeps setBody_covers)
  have b: "(\<not> falsy (url ?v)) \<longleftrightarrow>
      (if HBeforeRequest = HBeforeRequest then d_url d \<noteq> [] else \<not> falsy (url ?e))"
    by (simp add: setBody_other falsy_def)
  show ?thesis using correlated_ran[OF ok c rb u' cv b] .
qed

lemma correlated_send:
  assumes ok: "heap_ok s" and c: "correlated i s" and r: "isRecording s" and i: "requestId d = i"
  shows "correlated i (onBeforeSendHeaders_cb d now s)"
proof -
  let ?e = "entry s i now"
  let ?v = "?e\<lparr>requestHeaders := Some (assign (case requestHeaders ?e of
                    None \<Rightarrow> [] | Some m \<Rightarrow> m) (collect (d_requestHeaders d)))\<rparr>"
  from send_effect[OF ok r, of d now] obtain a where
    rb: "ran_body s (onBeforeSendHeaders_cb d now s) i a HBeforeSendHeaders d ?v" using i by auto
  note u = correlated_entry(1)[OF c, of now]
  have u': "union_exact (handled s @ [(HBeforeSendHeaders, d)]) ?v"
    using u by (simp add: union_exact_def latest_snoc merged_snoc)
  have cv: "covers ?v ?e" by (simp add: covers_def)
  have b: "(\<not> falsy (url ?v)) \<longleftrightarrow>
      (if HBeforeSendHeaders = HBeforeRequest then d_url d \<noteq> [] else \<not> falsy (url ?e))"
    by simp
  show ?thesis using correlated_ran[OF ok c rb u' cv b] .
qed

lemma correlated_recv:
  assumes ok: "heap_ok s" and c: "correlated i s" and r: "isRecording s" and i: "requestId d = i"
  shows "correlated i (onHeadersReceived_cb d now s)"
proof -
  let ?e = "entry s i now"
  let ?v = "?e\<lparr>responseHeaders := Some (assign (case responseHeaders ?e of
                    None \<Rightarrow> [] | Some m \<Rightarrow> m) (collect (d_responseHeaders d)))\<rparr>"
  from recv_effect[OF ok r, of d now] obtain a where
    rb: "ran_body s (onHeadersReceived_cb d now s) i a HHeadersReceived d ?v" using i by auto
  note u = correlated_entry(1)[OF c, of now]
  have u': "union_exact (handled s @ [(HHeadersReceived, d)]) ?v"
    using u by (simp add: union_exact_def latest_snoc merged_snoc)
  have cv: "covers ?v ?e" by (simp add: covers_def)
  have b: "(\<not> falsy (url ?v)) \<longleftrightarrow>
      (if HHeadersReceived = HBeforeRequest then d_url d \<noteq> [] else \<not> falsy (url ?e))"
    by simp
  show ?thesis using correlated_ran[OF ok c rb u' cv b] .
qed

lemma correlated_completed:
  assumes ok: "heap_ok s" and c: "correlated i s" and i: "requestId d = i"
  shows "correlated i (onCompleted d s)"
proof (cases "pendingRequests s i")
  case None
  then show ?thesis using c i by (simp add: onCompleted_def)
next
  case (Some a)
  show ?thesis
  proof (cases "isApiRequest d")
    case False
    then show ?thesis using c Some i by (simp add: onCompleted_def)
  next
    case True
    have e: "entry s i 0 = deref s a" using Some by (simp add: entry_def)
    let ?v = "(deref s a)\<lparr>status := Some (statusCode d)\<rparr>"
    from completed_effect[of s d a] ok Some True i obtain s1 where
      s': "onCompleted d s = s1\<lparr>timers := timers s1 @ [requestId d]\<rparr>"
      and rb: "ran_body s s1 i a HCompleted d ?v" by auto
    note u = correlated_entry(1)[OF c, of 0]
    have u': "union_exact (handled s @ [(HCompleted, d)]) ?v"
      using u by (simp add: union_exact_def latest_snoc merged_snoc e)
    have cv: "covers ?v (entry s i 0)" by (simp add: covers_def e)
    have b: "(\<not> falsy (url ?v)) \<longleftrightarrow>
        (if HCompleted = HBeforeRequest then d_url d \<noteq> [] else \<not> falsy (url (entry s i 0)))"
      by (simp add: e)
    have "correlated i s1" using correlated_ran[OF ok c rb u' cv b] .
    then show ?thesis unfolding s' by (rule correlated_cong) simp_all
  qed
qed

lemma correlated_step:
  assumes ok: "heap_ok s" and c: "correlated i s" and ab: "about i e"
  shows "correlated i (step h e s)"
proof (cases e)
  case (BeforeRequest d)
  then show ?thesis using c ab
    by (simp add: step_def onBeforeRequest_def about_def correlated_issue)
next
  case (BeforeSendHeaders d)
  then show ?thesis using c ab
    by (simp add: step_def onBeforeSendHeaders_def about_def correlated_issue)
next
  case (HeadersReceived d)
  then show ?thesis using c ab
    by (simp add: step_def onHeadersReceived_def about_def correlated_issue)
next
  case (Completed d)
  then show ?thesis using correlated_completed[OF ok c] ab by (simp add: step_def about_def)
next
  case (ErrorOccurred d)
  then show ?thesis using ab by (simp add: about_def)
next
  case (Timeout k)
  then show ?thesis using ab by (simp add: about_def)
next
  case (SetRecording b)
  have "correlated i (s\<lparr>isRecording := b\<rparr>)" using c by (rule correlated_cong) simp_all
  then show ?thesis using SetRecording by (simp add: step_def)
next
  case (Deliver k now)
  show ?thesis
  proof (cases "k < length (inflight s)")
    case False
    then show ?thesis using c Deliver by (simp add: step_def)
  next
    case True
    let ?s0 = "s\<lparr>inflight := without k (inflight s)\<rparr>"
    have ok0: "heap_ok ?s0" using ok by (simp add: heap_ok_def)
    have c0: "correlated i ?s0"
      by (rule correlated_cong[OF c]) (use set_without[of k "inflight s"] in auto)
    have mem: "inflight s ! k \<in> set (inflight s)" using True by simp
    show ?thesis
    proof (cases "inflight s ! k")
      case (GetRecording x)
      then have i: "requestId (cont_details x) = i" using c mem by (simp add: correlated_def)
      show ?thesis
      proof (cases "isRecording s")
        case False
        then show ?thesis using Deliver True GetRecording c0
          by (cases x) (simp_all add: step_def callback_def onBeforeRequest_cb_def
              onBeforeSendHeaders_cb_def onHeadersReceived_cb_def)
      next
        case r: True
        then have r0: "isRecording ?s0" by simp
        show ?thesis using Deliver True GetRecording i
            correlated_begin[OF ok0 c0 r0] correlated_send[OF ok0 c0 r0] correlated_recv[OF ok0 c0 r0]
          by (cases x) (simp_all add: step_def callback_def)
      qed
    next
      case (GetLogs a)
      have "correlated i (onGetLogs a ?s0)"
        using c0 by (rule correlated_cong) (simp_all add: onGetLogs_fields)
      then show ?thesis using Deliver True GetLogs by (simp add: step_def callback_def)
    next
      case (SetLogs a nl)
      have "correlated i (onSetLogs a nl ?s0)"
        using c0 by (rule correlated_cong) (simp_all add: onSetLogs_fields)
      then show ?thesis using Deliver True SetLogs by (simp add: step_def callback_def)
    qed
  qed
qed

lemma correlated_run:
  "list_all (about i) es \<Longrightarrow> correlated i (run h es installed)"
proof (induction es rule: rev_induct)
  case Nil
  show ?case by (simp add: run_def installed_def correlated_def)
next
  case (snoc e es)
  then show ?case using correlated_step[OF heap_ok_run] by (simp add: run_snoc)
qed

lemma map_of_assign: "map_of (assign a b) = map_of a ++ map_of (rev b)"
proof (induction b arbitrary: a)
  case Nil
  show ?case by (simp add: assign_def)
next
  case (Cons x b)
  obtain k v where x: "x = (k, v)" by (cases x)
  have "assign a (x # b) = assign (AList.update k v a) b" by (simp add: assign_def x)
  moreover have "map_of (AList.update k v a) ++ map_of (rev b)
      = map_of a ++ map_of (rev (x # b))"
    by (rule ext) (simp add: x update_conv' map_add_def split: option.splits)
  ultimately show ?case using Cons[of "AList.update k v a"] by simp
qed

subsection \<open>The bodies that ran come from the events\<close>

lemma sourced_mono: "sourced E s \<Longrightarrow> E \<subseteq> E' \<Longrightarrow> sourced E' s"
  by (auto simp: sourced_def)

lemma sourced_ran:
  assumes "sourced E s" and "ran_body s s' rid a k d v" and "event_of k d \<in> E"
  shows "sourced E s'"
  using assms by (auto simp: sourced_def ran_body_def)

lemma sourced_cong:
  assumes "sourced E s" and "handled s' = handled s"
    and "\<And>c. GetRecording c \<in> set (inflight s') \<Longrightarrow> GetRecording c \<in> set (inflight s)"
  shows "sourced E s'"
  using assms by (auto simp: sourced_def)

lemma sourced_step:
  assumes ok: "heap_ok s" and c: "sourced E s"
  shows "sourced (insert e E) (step h e s)"
proof -
  have c': "sourced (insert e E) s" using c by (rule sourced_mono) auto
  show ?thesis
  proof (cases e)
    case (BeforeRequest d)
    then show ?thesis using c' by (auto simp: step_def onBeforeRequest_def sourced_def)
  next
    case (BeforeSendHeaders d)
    then show ?thesis using c' by (auto simp: step_def onBeforeSendHeaders_def sourced_def)
  next
    case (HeadersReceived d)
    then show ?thesis using c' by (auto simp: step_def onHeadersReceived_def sourced_def)
  next
    case (Completed d)
    show ?thesis
    proof (cases "pendingRequests s (requestId d) \<noteq> None \<and> isApiRequest d")
      case False
      then show ?thesis using c' Completed by (auto simp: step_def onCompleted_def split: option.splits)
    next
      case True
      then obtain a where a: "pendingRequests s (requestId d) = Some a" by auto
      from completed_effect[OF ok a] True obtain s1 where
        s': "onCompleted d s = s1\<lparr>timers := timers s1 @ [requestId d]\<rparr>"
        and rb: "ran_body s s1 (requestId d) a HCompleted d ((deref s a)\<lparr>status := Some (statusCode d)\<rparr>)"
        by auto
      have "sourced (insert e E) s1" using sourced_ran[OF c' rb] Completed by simp
      then have "sourced (insert e E) (onCompleted d s)" unfolding s' by (rule sourced_cong) simp_all
      then show ?thesis using Completed by (simp add: step_def)
    qed
  next
    case (ErrorOccurred d)
    show ?thesis
    proof (cases "pendingRequests s (requestId d) \<noteq> None \<and> isApiRequest d")
      case False
      then show ?thesis using c' ErrorOccurred by (auto simp: step_def onErrorOccurred_def split: option.splits)
    next
      case True
      then obtain a where a: "pendingRequests s (requestId d) = Some a" by auto
      from error_effect[OF ok a] True obtain s1 where
        s': "onErrorOccurred d s = s1\<lparr>pendingRequests := (pendingRequests s1)(requestId d := None)\<rparr>"
        and rb: "ran_body s s1 (requestId d) a HErrorOccurred d
          ((deref s a)\<lparr>status := Some 0, error := Some (d_error d)\<rparr>)"
        by auto
      have "sourced (insert e E) s1" using sourced_ran[OF c' rb] ErrorOccurred by simp
      then have "sourced (insert e E) (onErrorOccurred d s)" unfolding s' by (rule sourced_cong) simp_all
      then show ?thesis using ErrorOccurred by (simp add: step_def)
    qed
  next
    case (Timeout k)
    have "sourced (insert e E) (step h e s)"
      by (rule sourced_cong[OF c']) (auto simp: Timeout step_def onTimeout_def split: if_splits)
    then show ?thesis .
  next
    case (SetRecording b)
    have "sourced (insert e E) (step h e s)"
      by (rule sourced_cong[OF c']) (simp_all add: SetRecording step_def)
    then show ?thesis .
  next
    case (Deliver k now)
    show ?thesis
    proof (cases "k < length (inflight s)")
      case False
      then show ?thesis using c' Deliver by (simp add: step_def)
    next
      case True
      let ?s0 = "s\<lparr>inflight := without k (inflight s)\<rparr>"
      have ok0: "heap_ok ?s0" using ok by (simp add: heap_ok_def)
      have c0: "sourced (insert e E) ?s0"
        by (rule sourced_cong[OF c']) (use set_without[of k "inflight s"] in auto)
      have mem: "inflight s ! k \<in> set (inflight s)" using True by simp
      show ?thesis
      proof (cases "inflight s ! k")
        case (GetRecording x)
        then have src: "cont_event x \<in> insert e E" using c' mem by (simp add: sourced_def)
        show ?thesis
        proof (cases "isRecording s")
          case False
          then show ?thesis using Deliver True GetRecording c0
            by (cases x) (simp_all add: step_def callback_def onBeforeRequest_cb_def
                onBeforeSendHeaders_cb_def onHeadersReceived_cb_def)
        next
          case r: True
          then have r0: "isRecording ?s0" by simp
          show ?thesis
          proof (cases x)
            case (CBeforeRequest d)
            from begin_effect[OF ok0 r0, of h d now] obtain a v where
              "ran_body ?s0 (onBeforeRequest_cb h d now ?s0) (requestId d) a HBeforeRequest d v" by blast
            from sourced_ran[OF c0 this] src CBeforeRequest
            show ?thesis using Deliver True GetRecording by (simp add: step_def callback_def)
          next
            case (CBeforeSendHeaders d)
            from send_effect[OF ok0 r0, of d now] obtain a v where
              "ran_body ?s0 (onBeforeSendHeaders_cb d now ?s0) (requestId d) a HBeforeSendHeaders d v" by blast
            from sourced_ran[OF c0 this] src CBeforeSendHeaders
            show ?thesis using Deliver True GetRecording by (simp add: step_def callback_def)
          next
            case (CHeadersReceived d)
            from recv_effect[OF ok0 r0, of d now] obtain a v where
              "ran_body ?s0 (onHeadersReceived_cb d now ?s0) (requestId d) a HHeadersReceived d v" by blast
            from sourced_ran[OF c0 this] src CHeadersReceived
            show ?thesis using Deliver True GetRecording by (simp add: step_def callback_def)
          qed
        qed
      next
        case (GetLogs a)
        have "sourced (insert e E) (onGetLogs a ?s0)"
          by (rule sourced_cong[OF c0]) (simp_all add: onGetLogs_fields)
        then show ?thesis using Deliver True GetLogs by (simp add: step_def callback_def)
      next
        case (SetLogs a nl)
        have "sourced (insert e E) (onSetLogs a nl ?s0)"
          by (rule sourced_cong[OF c0]) (simp_all add: onSetLogs_fields)
        then show ?thesis using Deliver True SetLogs by (simp add: step_def callback_def)
      qed
    qed
  qed
qed

lemma sourced_run: "sourced (set es) (run h es installed)"
proof (induction es rule: rev_induct)
  case Nil
  show ?case by (simp add: run_def installed_def sourced_def)
next
  case (snoc e es)
  have "sourced (insert e (set es)) (step h e (run h es installed))"
    using sourced_step[OF heap_ok_run snoc] .
  then show ?case by (simp add: run_snoc)
qed

subsection \<open>Which events change the status of an entry\<close>

lemma heap_ok_idD:
  "heap_ok s \<Longrightarrow> pendingRequests s rid = Some a \<Longrightarrow> log_id (objs s ! a) = rid"
  unfolding heap_ok_def by blast

lemma heap_ok_distinct:
  "heap_ok s \<Longrightarrow> pendingRequests s i = Some a \<Longrightarrow> pendingRequests s j = Some b \<Longrightarrow> i \<noteq> j \<Longrightarrow> a \<noteq> b"
  using heap_ok_idD by blast

lemma ran_body_entry:
  assumes ok: "heap_ok s" and ok': "heap_ok s'" and p: "pendingRequests s i = Some a"
    and r: "ran_body s s' rid b k d v"
  shows "pendingRequests s' i = Some a"
    and "rid \<noteq> i \<Longrightarrow> deref s' a = deref s a"
    and "rid = i \<Longrightarrow> b = a \<and> deref s' a = v"
proof -
  from r have p': "pendingRequests s' = (pendingRequests s)(rid \<mapsto> b)"
    and old: "\<forall>p. pendingRequests s rid = Some p \<longrightarrow> b = p"
    and vb: "deref s' b = v"
    and oth: "\<forall>x<length (objs s). x \<noteq> b \<longrightarrow> deref s' x = deref s x"
    by (simp_all add: ran_body_def)
  show pa: "pendingRequests s' i = Some a" using p' p old by auto
  show "deref s' a = deref s a" if n: "rid \<noteq> i"
  proof -
    have "pendingRequests s' rid = Some b" using p' by simp
    then have "a \<noteq> b" using heap_ok_distinct[OF ok' pa _ ] n by blast
    moreover have "a < length (objs s)" using heap_ok_pendingD[OF ok p] .
    ultimately show ?thesis using oth by simp
  qed
  show "b = a \<and> deref s' a = v" if "rid = i"
    using that p old vb by auto
qed

lemma status_kept_step:
  assumes ok: "heap_ok s" and p: "pendingRequests s i = Some a"
    and e: "\<forall>d. (e = Completed d \<or> e = ErrorOccurred d) \<longrightarrow> requestId d \<noteq> i"
    and p': "pendingRequests (step h e s) i = Some a'"
  shows "a' = a \<and> status (deref (step h e s) a) = status (deref s a)"
proof (cases e)
  case (BeforeRequest d)
  then show ?thesis using p p' by (auto simp: step_def onBeforeRequest_def split: if_splits)
next
  case (BeforeSendHeaders d)
  then show ?thesis using p p' by (auto simp: step_def onBeforeSendHeaders_def split: if_splits)
next
  case (HeadersReceived d)
  then show ?thesis using p p' by (auto simp: step_def onHeadersReceived_def split: if_splits)
next
  case (SetRecording b)
  then show ?thesis using p p' by (auto simp: step_def)
next
  case (Timeout k)
  then show ?thesis using p p'
    by (auto simp: step_def onTimeout_def split: if_splits)
next
  case (Completed d)
  then have n: "requestId d \<noteq> i" using e by simp
  show ?thesis
  proof (cases "pendingRequests s (requestId d) \<noteq> None \<and> isApiRequest d")
    case False
    then show ?thesis using p p' Completed by (auto simp: step_def onCompleted_def split: option.splits)
  next
    case True
    then obtain b where b: "pendingRequests s (requestId d) = Some b" by auto
    from completed_effect[OF ok b] True obtain s1 where
      s': "onCompleted d s = s1\<lparr>timers := timers s1 @ [requestId d]\<rparr>"
      and rb: "ran_body s s1 (requestId d) b HCompleted d ((deref s b)\<lparr>status := Some (statusCode d)\<rparr>)"
      by auto
    have ok1: "heap_ok s1"
      using heap_ok_onCompleted[OF ok, of d] unfolding s' by (simp add: heap_ok_def)
    note r = ran_body_entry[OF ok ok1 p rb]
    show ?thesis using r(1) r(2)[OF n] p' Completed by (simp add: step_def s')
  qed
next
  case (ErrorOccurred d)
  then have n: "requestId d \<noteq> i" using e by simp
  show ?thesis
  proof (cases "pendingRequests s (requestId d) \<noteq> None \<and> isApiRequest d")
    case False
    then show ?thesis using p p' ErrorOccurred by (auto simp: step_def onErrorOccurred_def split: option.splits)
  next
    case True
    then obtain b where b: "pendingRequests s (requestId d) = Some b" by auto
    let ?f = "\<lambda>l. l\<lparr>status := Some 0, error := Some (d_error d)\<rparr>"
    let ?s1 = "saveLog b (modify b ?f (mark HErrorOccurred d s))"
    from error_effect[OF ok b] True obtain s1 where
      s': "onErrorOccurred d s = s1\<lparr>pendingRequests := (pendingRequests s1)(requestId d := None)\<rparr>"
      and rb: "ran_body s s1 (requestId d) b HErrorOccurred d
          ((deref s b)\<lparr>status := Some 0, error := Some (d_error d)\<rparr>)"
      by auto
    have oth: "\<forall>x<length (objs s). x \<noteq> b \<longrightarrow> deref s1 x = deref s x"
      and ps1: "pendingRequests s1 = (pendingRequests s)(requestId d \<mapsto> b)"
      using rb by (simp_all add: ran_body_def)
    have ab: "a \<noteq> b" using heap_ok_distinct[OF ok p b] n by blast
    have "deref s1 a = deref s a" using oth heap_ok_pendingD[OF ok p] ab by simp
    then show ?thesis using p p' ErrorOccurred n ps1 by (simp add: step_def s')
  qed
next
  case (Deliver k now)
  show ?thesis
  proof (cases "k < length (inflight s)")
    case False
    then show ?thesis using p p' Deliver by (simp add: step_def)
  next
    case True
    let ?s0 = "s\<lparr>inflight := without k (inflight s)\<rparr>"
    have ok0: "heap_ok ?s0" using ok by (simp add: heap_ok_def)
    have p0: "pendingRequests ?s0 i = Some a" using p by simp
    have d0: "deref ?s0 = deref s" by simp
    have st: "step h e s = callback h (inflight s ! k) now ?s0"
      using Deliver True by (simp add: step_def)
    have ok': "heap_ok (callback h (inflight s ! k) now ?s0)" using heap_ok_callback[OF ok0] .
    show ?thesis
    proof (cases "inflight s ! k")
      case (GetLogs x)
      have "deref (onGetLogs x ?s0) = deref s"
        by (rule deref_cong) (simp_all add: onGetLogs_fields)
      then show ?thesis using p p' st GetLogs
        by (simp add: callback_def onGetLogs_fields)
    next
      case (SetLogs x nl)
      have "deref (onSetLogs x nl ?s0) = deref s"
        by (rule deref_cong) (simp_all add: onSetLogs_fields)
      then show ?thesis using p p' st SetLogs
        by (simp add: callback_def onSetLogs_fields)
    next
      case (GetRecording c)
      show ?thesis
      proof (cases "isRecording s")
        case False
        then show ?thesis using p p' st GetRecording
          by (cases c) (simp_all add: callback_def onBeforeRequest_cb_def
              onBeforeSendHeaders_cb_def onHeadersReceived_cb_def)
      next
        case r: True
        then have r0: "isRecording ?s0" by simp
        have e0: "entry ?s0 i now = deref s a" using p by (simp add: entry_def)
        show ?thesis
        proof (cases c)
          case (CBeforeRequest d)
          then have st': "step h e s = onBeforeRequest_cb h d now ?s0"
            using st GetRecording by (simp add: callback_def)
          from begin_effect[OF ok0 r0, of h d now] obtain b where
            rb: "ran_body ?s0 (step h e s) (requestId d) b HBeforeRequest d
              (setBody h d ((entry ?s0 (requestId d) now)
                \<lparr>url := Some (d_url d), req_method := Some (d_method d), rtype := Some (d_type d)\<rparr>))"
            unfolding st' by blast
          have ok'': "heap_ok (step h e s)" using ok' st by simp
          note t = ran_body_entry[OF ok0 ok'' p0 rb]
          show ?thesis
          proof (cases "requestId d = i")
            case True
            then show ?thesis using t(1) t(3)[OF True] p' e0 by (simp add: setBody_other)
          next
            case False
            then show ?thesis using t(1) t(2)[OF False] p' by simp
          qed
        next
          case (CBeforeSendHeaders d)
          then have st': "step h e s = onBeforeSendHeaders_cb d now ?s0"
            using st GetRecording by (simp add: callback_def)
          from send_effect[OF ok0 r0, of d now] obtain b where
            rb: "ran_body ?s0 (step h e s) (requestId d) b HBeforeSendHeaders d
              ((entry ?s0 (requestId d) now)
                \<lparr>requestHeaders := Some (assign (case requestHeaders (entry ?s0 (requestId d) now) of
                    None \<Rightarrow> [] | Some m \<Rightarrow> m) (collect (d_requestHeaders d)))\<rparr>)"
            unfolding st' by blast
          have ok'': "heap_ok (step h e s)" using ok' st by simp
          note t = ran_body_entry[OF ok0 ok'' p0 rb]
          show ?thesis
          proof (cases "requestId d = i")
            case True
            then show ?thesis using t(1) t(3)[OF True] p' e0 by simp
          next
            case False
            then show ?thesis using t(1) t(2)[OF False] p' by simp
          qed
        next
          case (CHeadersReceived d)
          then have st': "step h e s = onHeadersReceived_cb d now ?s0"
            using st GetRecording by (simp add: callback_def)
          from recv_effect[OF ok0 r0, of d now] obtain b where
            rb: "ran_body ?s0 (step h e s) (requestId d) b HHeadersReceived d
              ((entry ?s0 (requestId d) now)
                \<lparr>responseHeaders := Some (assign (case responseHeaders (entry ?s0 (requestId d) now) of
                    None \<Rightarrow> [] | Some m \<Rightarrow> m) (collect (d_responseHeaders d)))\<rparr>)"
            unfolding st' by blast
          have ok'': "heap_ok (step h e s)" using ok' st by simp
          note t = ran_body_entry[OF ok0 ok'' p0 rb]
          show ?thesis
          proof (cases "requestId d = i")
            case True
            then show ?thesis using t(1) t(3)[OF True] p' e0 by simp
          next
            case False
            then show ?thesis using t(1) t(2)[OF False] p' by simp
          qed
        qed
      qed
    qed
  qed
qed

subsection \<open>Evaluation and the pure part of a pass\<close>

lemmas engine_defs = run_def step_def callback_def onBeforeRequest_def onBeforeRequest_cb_def
  onBeforeSendHeaders_def onBeforeSendHeaders_cb_def onHeadersReceived_def onHeadersReceived_cb_def
  onCompleted_def onErrorOccurred_def onTimeout_def onGetLogs_def onSetLogs_def saveLog_def
  processQueue_def getOrCreatePending_def setBody_def collect_def isExtensionRequest_def
  isApiRequest_def issue_def mark_def modify_def without_def deref_def resolve_def currentLogs_def
  mergeLog_def applyLog_def spread_def over_def assign_def falsy_def installed_def MAX_LOGS_def

lemmas input_defs = host0_def req7_def rec7_def rec8_def paused_def auth_def ctype_def
  example_def completed_first_def done200_def reborn_def received_def late_after_error_def
  late_after_completed_def example_record_def begun_def

lemma findIndex_Some:
  "findIndex p xs = Some i \<Longrightarrow> i < length xs \<and> p (xs ! i) \<and> (\<forall>j<i. \<not> p (xs ! j))"
proof (induction xs arbitrary: i)
  case Nil
  then show ?case by simp
next
  case (Cons x xs)
  then show ?case by (auto simp: nth_Cons split: if_splits nat.splits)
qed


lemma spread_id [simp]: "log_id (spread a b) = log_id b"
  by (simp add: spread_def)




subsection \<open>The rule manager\<close>

lemma split_str_nonempty: "split_str c s \<noteq> []"
  by (induction s) (auto split: list.splits)

lemma split_str_first: "split_str c s ! 0 = takeWhile (\<lambda>x. x \<noteq> c) s"
  by (induction s) (auto split: list.splits simp: split_str_nonempty)

lemma ruleFor_simps:
  "r_id (ruleFor u hs) = 1"
  "urlFilter (ruleFor u hs) = takeWhile (\<lambda>x. x \<noteq> CHR ''?'') u"
  by (simp_all add: ruleFor_def split_str_first)

lemma onMessage_ids:
  "\<forall>r\<in>set rules. r_id r = 1 \<Longrightarrow> length rules \<le> 1 \<Longrightarrow>
   (\<forall>r\<in>set (fst (onMessage reject m rules)). r_id r = 1)
   \<and> length (fst (onMessage reject m rules)) \<le> 1"
  by (auto simp: onMessage_def updateSessionRules_def ruleFor_simps filter_empty_conv
      split: message.splits option.splits)

lemma messages_snoc:
  "messages reject (ms @ [m]) rules = fst (onMessage reject m (messages reject ms rules))"
  by (simp add: messages_def)

lemma messages_inv:
  "(\<forall>r\<in>set (messages reject ms []). r_id r = 1) \<and> length (messages reject ms []) \<le> 1"
proof (induction ms rule: rev_induct)
  case Nil
  then show ?case by (simp add: messages_def)
next
  case (snoc m ms)
  then show ?case using onMessage_ids[of "messages reject ms []" reject m]
    by (simp add: messages_snoc)
qed

subsection \<open>The begin callback and the request body\<close>

text \<open>
  Whatever the body of a begin event is, the callback (recording on) processes the event
  and passes one snapshot on; the body stored is the decoded text of the first raw
  element, the sentinel if the decoder of the host throws, or the form data.
\<close>

lemma begin_callback_body:
  assumes "s = run h es installed"
    and "k < length (inflight s)"
    and "inflight s ! k = GetRecording (CBeforeRequest d)"
    and "isRecording s"
    and "d_requestBody d = Some rb"
    and "s' = step h (Deliver k now) s"
  shows "\<exists>a c. pendingRequests s' (requestId d) = Some a
       \<and> enqueued s' = enqueued s @ [c]
       \<and> handled s' = handled s @ [(HBeforeRequest, d)]
       \<and> url (objs s' ! c) = Some (d_url d)
       \<and> requestBody (objs s' ! c) = requestBody (objs s' ! a)
       \<and> (\<forall>u us t. raw rb = Some (u # us) \<and> decode h (bytes u) = Some t \<longrightarrow>
             requestBody (objs s' ! a) = Some (BodyText t))
       \<and> (\<forall>u us. raw rb = Some (u # us) \<and> decode h (bytes u) = None \<longrightarrow>
             requestBody (objs s' ! a) = Some (BodyText ''[Binary Data]''))
       \<and> (\<forall>f. (raw rb = None \<or> raw rb = Some []) \<and> formData rb = Some f \<longrightarrow>
             requestBody (objs s' ! a) = Some (BodyForm f))"
proof -
  let ?s0 = "s\<lparr>inflight := without k (inflight s)\<rparr>"
  have ok: "heap_ok s" using assms(1) heap_ok_run by simp
  then have ok0: "heap_ok ?s0" by (simp add: heap_ok_def)
  obtain a s1 where g: "getOrCreatePending (requestId d) now ?s0 = (a, s1)" by fastforce
  from heap_ok_getOrCreatePending[OF ok0 g]
  have ok1: "heap_ok s1" and p1: "pendingRequests s1 (requestId d) = Some a" by auto
  have a: "a < length (objs s1)" using heap_ok_pendingD[OF ok1 p1] .
  let ?f = "\<lambda>l. setBody h d (l\<lparr>url := Some (d_url d), req_method := Some (d_method d), rtype := Some (d_type d)\<rparr>)"
  let ?s2 = "mark HBeforeRequest d s1"
  have s': "s' = saveLog a (modify a ?f ?s2)"
    using assms(2,3,4,6) g by (simp add: step_def callback_def onBeforeRequest_cb_def)
  have a2: "a < length (objs ?s2)" using a by simp
  note eff = save_modify_effect[OF a2, of ?f]
  have enq: "enqueued s' = enqueued s @ [length (objs s1)]"
    using eff(2) getOrCreatePending_fields[OF g] by (simp add: s')
  have hd: "handled s' = handled s @ [(HBeforeRequest, d)]"
    using getOrCreatePending_fields[OF g] by (simp add: s')
  have pa: "pendingRequests s' (requestId d) = Some a" using p1 by (simp add: s')
  have oa: "objs s' ! a = ?f (objs s1 ! a)" using eff(3) by (simp add: s')
  have oc: "objs s' ! length (objs s1) = ?f (objs s1 ! a)" using eff(4) by (simp add: s')
  show ?thesis
    apply (rule exI[of _ a], rule exI[of _ "length (objs s1)"])
    using enq hd pa assms(5)
    by (auto simp: oa oc setBody_body setBody_other)
qed

subsection \<open>The key-wise merge of the headers seen\<close>

lemma assign_distinct: "distinct (map fst a) \<Longrightarrow> distinct (map fst (assign a b))"
proof (induction b arbitrary: a)
  case Nil
  then show ?case by (simp add: assign_def)
next
  case (Cons x b)
  obtain k v where x: "x = (k, v)" by (cases x)
  have "assign a (x # b) = assign (AList.update k v a) b" by (simp add: assign_def x)
  then show ?case using Cons.IH[of "AList.update k v a"] Cons.prems
    by (simp add: distinct_update)
qed

lemma map_of_rev_distinct: "distinct (map fst xs) \<Longrightarrow> map_of (rev xs) = map_of xs"
proof (induction xs)
  case Nil
  show ?case by simp
next
  case (Cons x xs)
  obtain k v where x: "x = (k, v)" by (cases x)
  have n: "map_of xs k = None" using Cons.prems by (simp add: x map_of_eq_None_iff)
  have "map_of (rev (x # xs)) = map_of [x] ++ map_of (rev xs)" by (simp add: map_of_append)
  also have "\<dots> = map_of [x] ++ map_of xs" using Cons by simp
  also have "\<dots> = map_of (x # xs)"
    using n by (auto simp: x map_add_def fun_eq_iff split: option.splits)
  finally show ?case .
qed

lemma collect_assign_aux:
  "foldl (\<lambda>m h. if h_name h = ''__proto__'' then m
                else AList.update (h_name h) (case h_value h of None \<Rightarrow> [] | Some v \<Rightarrow> v) m) a l
   = assign a (pairs (Some l))"
  by (induction l arbitrary: a) (simp_all add: assign_def pairs_def)

lemma collect_assign: "collect x = assign [] (pairs x)"
proof (cases x)
  case None
  then show ?thesis by (simp add: collect_def assign_def pairs_def)
next
  case (Some l)
  then show ?thesis by (simp add: collect_def collect_assign_aux)
qed

lemma map_of_collect: "map_of (rev (collect x)) = map_of (rev (pairs x))"
proof -
  have "distinct (map fst (collect x))" unfolding collect_assign by (rule assign_distinct) simp
  then have "map_of (rev (collect x)) = map_of (collect x)" by (rule map_of_rev_distinct)
  also have "\<dots> = map_of (rev (pairs x))" by (simp add: collect_assign map_of_assign)
  finally show ?thesis .
qed

lemma headers_seen_snoc:
  "headers_seen k f (hs @ [(k', d)])
   = (if k' = k then headers_seen k f hs @ pairs (f d) else headers_seen k f hs)"
  by (simp add: headers_seen_def)

lemma map_of_merged: "map_of (merged k f hs) = map_of (rev (headers_seen k f hs))"
proof (induction hs rule: rev_induct)
  case Nil
  show ?case by (simp add: headers_seen_def)
next
  case (snoc x hs)
  obtain k' d where x: "x = (k', d)" by (cases x)
  show ?case unfolding x using snoc
    by (simp add: merged_snoc headers_seen_snoc map_of_assign map_of_collect map_of_append)
qed

lemma union_exact_union: "union_exact hs v \<Longrightarrow> union_of hs v"
  by (simp add: union_exact_def union_of_def map_of_merged)

subsection \<open>Every event that passes the filters gets its body run\<close>

lemma recordings_simps [simp]:
  "recordings [] = []"
  "recordings (GetRecording c # xs) = (cont_kind c, cont_details c) # recordings xs"
  "recordings (GetLogs a # xs) = recordings xs"
  "recordings (SetLogs a nl # xs) = recordings xs"
  "recordings (xs @ ys) = recordings xs @ recordings ys"
  by (simp_all add: recordings_def)

lemma recordings_without:
  assumes "k < length xs"
  shows "mset (recordings (without k xs)) + mset (pending_read (xs ! k)) = mset (recordings xs)"
proof -
  have "xs = take k xs @ [xs ! k] @ drop (Suc k) xs"
    using assms by (simp add: id_take_nth_drop)
  then have "recordings xs = recordings (take k xs @ [xs ! k] @ drop (Suc k) xs)" by simp
  then have "recordings xs
      = recordings (take k xs) @ recordings [xs ! k] @ recordings (drop (Suc k) xs)"
    by (simp only: recordings_simps)
  moreover have "recordings [xs ! k] = pending_read (xs ! k)" by (simp add: recordings_def)
  moreover have "recordings (without k xs) = recordings (take k xs) @ recordings (drop (Suc k) xs)"
    by (simp add: without_def)
  ultimately show ?thesis by simp
qed

lemma recordings_empty: "recordings xs = [] \<longleftrightarrow> (\<forall>c. GetRecording c \<notin> set xs)"
proof (induction xs)
  case Nil
  show ?case by simp
next
  case (Cons x xs)
  then show ?case by (cases x) auto
qed

lemma recordings_processQueue [simp]:
  "recordings (inflight (processQueue s)) = recordings (inflight s)"
  by (simp add: processQueue_def split: list.splits)

lemma recordings_saveLog [simp]:
  "recordings (inflight (saveLog a s)) = recordings (inflight s)"
  by (simp add: saveLog_queue)

lemma recordings_onGetLogs: "recordings (inflight (onGetLogs a s)) = recordings (inflight s)"
  by (simp add: onGetLogs_def Let_def split: option.splits)

lemma recordings_onSetLogs: "recordings (inflight (onSetLogs a nl s)) = recordings (inflight s)"
  by (simp add: onSetLogs_def Let_def)

lemma body_recordings:
  "recordings (inflight (onBeforeRequest_cb h d now s)) = recordings (inflight s)"
  "recordings (inflight (onBeforeSendHeaders_cb d now s)) = recordings (inflight s)"
  "recordings (inflight (onHeadersReceived_cb d now s)) = recordings (inflight s)"
  "recordings (inflight (onCompleted d s)) = recordings (inflight s)"
  "recordings (inflight (onErrorOccurred d s)) = recordings (inflight s)"
  by (simp_all add: onBeforeRequest_cb_def onBeforeSendHeaders_cb_def onHeadersReceived_cb_def
      onCompleted_def onErrorOccurred_def Let_def case_prod_beta split: option.splits)

lemma body_handled:
  "handled (onBeforeRequest_cb h d now s)
     = (if isRecording s then handled s @ [(HBeforeRequest, d)] else handled s)"
  "handled (onBeforeSendHeaders_cb d now s)
     = (if isRecording s then handled s @ [(HBeforeSendHeaders, d)] else handled s)"
  "handled (onHeadersReceived_cb d now s)
     = (if isRecording s then handled s @ [(HHeadersReceived, d)] else handled s)"
  "handled (onCompleted d s)
     = (if pendingRequests s (requestId d) \<noteq> None \<and> isApiRequest d
        then handled s @ [(HCompleted, d)] else handled s)"
  "handled (onErrorOccurred d s)
     = (if pendingRequests s (requestId d) \<noteq> None \<and> isApiRequest d
        then handled s @ [(HErrorOccurred, d)] else handled s)"
  by (simp_all add: onBeforeRequest_cb_def onBeforeSendHeaders_cb_def onHeadersReceived_cb_def
      onCompleted_def onErrorOccurred_def Let_def case_prod_beta split: option.splits)

lemma body_recording:
  "isRecording (onBeforeRequest_cb h d now s) = isRecording s"
  "isRecording (onBeforeSendHeaders_cb d now s) = isRecording s"
  "isRecording (onHeadersReceived_cb d now s) = isRecording s"
  "isRecording (onCompleted d s) = isRecording s"
  "isRecording (onErrorOccurred d s) = isRecording s"
  "isRecording (onGetLogs a s) = isRecording s"
  "isRecording (onSetLogs a nl s) = isRecording s"
  by (simp_all add: onBeforeRequest_cb_def onBeforeSendHeaders_cb_def onHeadersReceived_cb_def
      onCompleted_def onErrorOccurred_def onGetLogs_def onSetLogs_def Let_def case_prod_beta
      split: option.splits)

lemma accounted_step:
  assumes r: "isRecording s" and e: "e \<noteq> SetRecording False"
  shows "mset (filter (\<lambda>x. toggled (fst x)) (handled (step h e s)))
           + mset (recordings (inflight (step h e s)))
         = mset (filter (\<lambda>x. toggled (fst x)) (handled s)) + mset (recordings (inflight s))
           + mset (read_of h e)
       \<and> isRecording (step h e s)"
proof (cases e)
  case (BeforeRequest d)
  then show ?thesis using r
    by (auto simp: step_def onBeforeRequest_def passes_def isApiRequest_def)
next
  case (BeforeSendHeaders d)
  then show ?thesis using r by (auto simp: step_def onBeforeSendHeaders_def passes_def)
next
  case (HeadersReceived d)
  then show ?thesis using r by (auto simp: step_def onHeadersReceived_def passes_def)
next
  case (Completed d)
  then show ?thesis using r by (simp add: step_def body_handled body_recordings body_recording)
next
  case (ErrorOccurred d)
  then show ?thesis using r by (simp add: step_def body_handled body_recordings body_recording)
next
  case (Timeout k)
  then show ?thesis using r by (simp add: step_def onTimeout_def)
next
  case (SetRecording b)
  then show ?thesis using e by (cases b) (simp_all add: step_def)
next
  case (Deliver k now)
  show ?thesis
  proof (cases "k < length (inflight s)")
    case False
    then show ?thesis using Deliver r by (simp add: step_def)
  next
    case True
    let ?s0 = "s\<lparr>inflight := without k (inflight s)\<rparr>"
    note w = recordings_without[OF True]
    show ?thesis
    proof (cases "inflight s ! k")
      case (GetRecording c)
      then show ?thesis using Deliver True r w
        by (cases c)
           (simp_all add: step_def callback_def body_handled body_recordings body_recording)
    next
      case (GetLogs a)
      then show ?thesis using Deliver True r w
        by (simp add: step_def callback_def onGetLogs_fields recordings_onGetLogs body_recording)
    next
      case (SetLogs a nl)
      then show ?thesis using Deliver True r w
        by (simp add: step_def callback_def onSetLogs_fields recordings_onSetLogs body_recording)
    qed
  qed
qed

lemma accounted_run:
  assumes "isRecording s0" and "SetRecording False \<notin> set es"
  shows "mset (filter (\<lambda>x. toggled (fst x)) (handled (run h es s0)))
           + mset (recordings (inflight (run h es s0)))
         = mset (filter (\<lambda>x. toggled (fst x)) (handled s0)) + mset (recordings (inflight s0))
           + mset (reads h es)
       \<and> isRecording (run h es s0)"
  using assms(2)
proof (induction es rule: rev_induct)
  case Nil
  show ?case using assms(1) by (simp add: run_def reads_def)
next
  case (snoc e es)
  then have IH: "mset (filter (\<lambda>x. toggled (fst x)) (handled (run h es s0)))
           + mset (recordings (inflight (run h es s0)))
         = mset (filter (\<lambda>x. toggled (fst x)) (handled s0)) + mset (recordings (inflight s0))
           + mset (reads h es)"
    and r: "isRecording (run h es s0)" and e: "e \<noteq> SetRecording False" by auto
  from accounted_step[OF r e, of h] IH
  show ?case by (simp add: run_snoc reads_def)
qed

lemma accounted_installed:
  assumes "recording_on es"
  shows "mset (filter (\<lambda>x. toggled (fst x)) (handled (run h es installed)))
           + mset (recordings (inflight (run h es installed)))
         = mset (reads h es)"
proof -
  from assms obtain es0 where es: "es = SetRecording True # es0" and n: "SetRecording False \<notin> set es0"
    by (cases es) (auto simp: recording_on_def)
  let ?s0 = "installed\<lparr>isRecording := True\<rparr>"
  have a: "run h es installed = run h es0 ?s0" by (simp add: es run_def step_def)
  have b: "reads h es = reads h es0" by (simp add: es reads_def)
  have r: "isRecording ?s0" by simp
  from accounted_run[OF r n, of h] show ?thesis
    unfolding a b by (simp add: installed_def)
qed

subsection \<open>After the last listener body\<close>

lemma correlated_settled:
  assumes "correlated i s" and "recordings (inflight s) = []"
  shows "settled i s"
proof (cases "pendingRequests s i")
  case None
  then have "handled s = []" "enqueued s = []" using assms(1) by (simp_all add: correlated_def)
  then show ?thesis using assms by (simp add: settled_def)
next
  case (Some a)
  then have "union_exact (handled s) (deref s a)" "log_id (deref s a) = i" "enqueued s \<noteq> []"
    "deref s (last (enqueued s)) = deref s a"
    using assms(1) by (simp_all add: correlated_def)
  moreover have "chain (map (deref s) (enqueued s))"
    "(\<exists>x\<in>set (enqueued s). \<not> falsy (url (deref s x)))
           \<longleftrightarrow> (\<exists>d. (HBeforeRequest, d) \<in> set (handled s) \<and> d_url d \<noteq> [])"
    using assms(1) by (simp_all add: correlated_def)
  ultimately show ?thesis using assms(2) by (simp add: settled_def)
qed

lemma correlated_pending:
  "correlated i s \<Longrightarrow> (pendingRequests s i = None \<longleftrightarrow> handled s = [])"
  by (auto simp: correlated_def)

lemma settled_cong:
  assumes "settled i s"
    and "handled s' = handled s" and "enqueued s' = enqueued s"
    and "objs s' = objs s" and "hmaps s' = hmaps s"
    and "recordings (inflight s') = recordings (inflight s)"
  shows "settled i s'"
proof -
  have d: "deref s' = deref s" using assms(4,5) by (rule deref_cong)
  show ?thesis using assms(1) unfolding settled_def d assms(2,3,6) by blast
qed

lemma recordings_without_empty:
  "recordings xs = [] \<Longrightarrow> recordings (without k xs) = []"
  using set_without[of k xs] by (auto simp: recordings_empty)

lemma settled_step:
  assumes c: "settled i s" and e: "settling e"
  shows "settled i (step h e s) \<and> handled (step h e s) = handled s"
proof (cases e)
  case (Timeout k)
  have "settled i (step h e s)"
    by (rule settled_cong[OF c]) (simp_all add: Timeout step_def onTimeout_def)
  then show ?thesis by (simp add: Timeout step_def onTimeout_def)
next
  case (SetRecording b)
  have "settled i (step h e s)"
    by (rule settled_cong[OF c]) (simp_all add: SetRecording step_def)
  then show ?thesis by (simp add: SetRecording step_def)
next
  case (Deliver k now)
  show ?thesis
  proof (cases "k < length (inflight s)")
    case False
    then show ?thesis using c Deliver by (simp add: step_def)
  next
    case True
    let ?s0 = "s\<lparr>inflight := without k (inflight s)\<rparr>"
    have r: "recordings (inflight s) = []" using c by (simp add: settled_def)
    have r0: "recordings (without k (inflight s)) = []"
      using r by (rule recordings_without_empty)
    have c0: "settled i ?s0" by (rule settled_cong[OF c]) (simp_all add: r r0)
    have mem: "inflight s ! k \<in> set (inflight s)" using True by simp
    show ?thesis
    proof (cases "inflight s ! k")
      case (GetRecording x)
      then show ?thesis using mem r by (simp add: recordings_empty)
    next
      case (GetLogs a)
      have "settled i (onGetLogs a ?s0)"
        by (rule settled_cong[OF c0]) (simp_all add: onGetLogs_fields recordings_onGetLogs)
      then show ?thesis using Deliver True GetLogs
        by (simp add: step_def callback_def onGetLogs_fields)
    next
      case (SetLogs a nl)
      have "settled i (onSetLogs a nl ?s0)"
        by (rule settled_cong[OF c0]) (simp_all add: onSetLogs_fields recordings_onSetLogs)
      then show ?thesis using Deliver True SetLogs
        by (simp add: step_def callback_def onSetLogs_fields)
    qed
  qed
qed (use e in simp_all)

lemma settled_run:
  "list_all settling es \<Longrightarrow> settled i s \<Longrightarrow>
   settled i (run h es s) \<and> handled (run h es s) = handled s"
proof (induction es rule: rev_induct)
  case Nil
  then show ?case by (simp add: run_def)
next
  case (snoc e es)
  then have a: "settled i (run h es s)" "handled (run h es s) = handled s" and e: "settling e"
    by simp_all
  from settled_step[OF a(1) e, of h] a(2) show ?case by (simp add: run_snoc)
qed

lemma completed_contributes:
  assumes a: "list_all (about i) es" and n: "n < length es" and c: "es ! n = Completed d"
  shows "handled (run h (take (Suc n) es) installed)
       = handled (run h (take n es) installed)
         @ (if isApiRequest d \<and> handled (run h (take n es) installed) \<noteq> []
            then [(HCompleted, d)] else [])"
proof -
  let ?s = "run h (take n es) installed"
  have "list_all (about i) (take n es)"
    using a by (auto simp: list_all_iff dest: in_set_takeD)
  then have co: "correlated i ?s" by (rule correlated_run)
  have "about i (es ! n)" using a n by (simp add: list_all_length)
  then have i: "requestId d = i" using c by (simp add: about_def)
  have t: "take (Suc n) es = take n es @ [Completed d]"
    using take_Suc_conv_app_nth[OF n] c by simp
  show ?thesis
    unfolding t run_snoc using correlated_pending[OF co] i
    by (simp add: step_def body_handled)
qed

section \<open>The claims\<close>

subsection \<open>C3: the store is bounded; a pass merges in place or prepends\<close>



subsection \<open>C7: a new record without URL is dropped\<close>

text \<open>
  C7. When the read callback of \<^verbatim>\<open>processQueue\<close> runs for a record whose identifier is
  not in the stored list and whose \<^verbatim>\<open>url\<close> is absent (or empty), nothing is written: the
  stored list stays, no write is issued, the heap and the pending table stay, the pass
  ends (the record counts as processed, the transition has no error outcome), and the next
  queued item, if there is one, is taken at once: its read is issued and the flag stays
  set. With an empty queue the flag is released.
\<close>

theorem new_record_without_url_dropped:
  assumes "k < length (inflight s)"
    and "inflight s ! k = GetLogs a"
    and "findIndex (\<lambda>l. log_id l = log_id (deref s a)) (currentLogs s) = None"
    and "falsy (url (deref s a))"
  shows "mergeLog (currentLogs s) (deref s a) = None
       \<and> logs (step h (Deliver k now) s) = logs s
       \<and> objs (step h (Deliver k now) s) = objs s
       \<and> pendingRequests (step h (Deliver k now) s) = pendingRequests s
       \<and> processed (step h (Deliver k now) s) = processed s @ [a]
       \<and> (case saveQueue s of
            [] \<Rightarrow> inflight (step h (Deliver k now) s) = without k (inflight s)
                  \<and> \<not> isSaving (step h (Deliver k now) s)
                  \<and> saveQueue (step h (Deliver k now) s) = []
          | b # q \<Rightarrow> inflight (step h (Deliver k now) s) = without k (inflight s) @ [GetLogs b]
                  \<and> isSaving (step h (Deliver k now) s)
                  \<and> saveQueue (step h (Deliver k now) s) = q)"
proof -
  have m: "mergeLog (currentLogs s) (deref s a) = None"
    using assms(3,4) by (simp add: mergeLog_def)
  then have m': "mergeLog (currentLogs (s\<lparr>inflight := without k (inflight s)\<rparr>))
      (deref (s\<lparr>inflight := without k (inflight s)\<rparr>) a) = None"
    by (simp add: currentLogs_def deref_def)
  show ?thesis using assms(1,2) m m'
    by (simp add: step_def callback_def onGetLogs_def Let_def processQueue_def issue_def
        split: list.splits)
qed

text \<open>
  The theorem at a concrete input: the headers of request 7 are seen before its begin
  event, twice; the first snapshot has no URL and is dropped, and the read for the second
  one is issued.
\<close>

theorem new_record_without_url_dropped_witness:
  "logs (run host0 [SetRecording True, BeforeSendHeaders req7, HeadersReceived req7,
           Deliver 0 5, Deliver 0 6, Deliver 0 7] installed) = Some []
   \<and> inflight (run host0 [SetRecording True, BeforeSendHeaders req7, HeadersReceived req7,
           Deliver 0 5, Deliver 0 6, Deliver 0 7] installed) = [GetLogs 2]
   \<and> isSaving (run host0 [SetRecording True, BeforeSendHeaders req7, HeadersReceived req7,
           Deliver 0 5, Deliver 0 6, Deliver 0 7] installed)"
proof -
  let ?s = "run host0 [SetRecording True, BeforeSendHeaders req7, HeadersReceived req7,
           Deliver 0 5, Deliver 0 6] installed"
  have r: "run host0 [SetRecording True, BeforeSendHeaders req7, HeadersReceived req7,
           Deliver 0 5, Deliver 0 6, Deliver 0 7] installed = step host0 (Deliver 0 7) ?s"
    by (simp add: run_def)
  have h: "0 < length (inflight ?s) \<and> inflight ?s ! 0 = GetLogs 1
      \<and> findIndex (\<lambda>l. log_id l = log_id (deref ?s 1)) (currentLogs ?s) = None
      \<and> falsy (url (deref ?s 1))
      \<and> saveQueue ?s = [2] \<and> logs ?s = Some [] \<and> without 0 (inflight ?s) = []"
    by (simp add: engine_defs input_defs)
  show ?thesis
    using new_record_without_url_dropped[of 0 ?s 1 host0 7] h unfolding r by simp
qed

subsection \<open>C8: one override rule, replaced as a whole\<close>

text \<open>
  C8 as stated fails when the host refuses an update: the listener has a path for that
  (\<^verbatim>\<open>.catch\<close>, lines 70 to 72), and a refused update changes nothing. A first message sets
  the header \<^verbatim>\<open>Origin\<close>; a second message in a row carries an empty header list, which the
  host refuses. The rule of the first message stays the active one, and the second
  message is answered with \<^verbatim>\<open>success: false\<close> and the error text.
\<close>

theorem refused_update_keeps_first_rule:
  "messages reject0
     [SET_REQUEST_HEADERS ''https://api.x/v1'' [origin],
      SET_REQUEST_HEADERS ''https://api.x/?page=2'' []] []
     = [\<lparr> r_id = 1, priority = 999, action_type = MODIFY_HEADERS,
          action_requestHeaders =
            [\<lparr> m_header = Some ''Origin'', m_operation = SET, m_value = Some ''https://api.x'' \<rparr>],
          urlFilter = ''https://api.x/v1'', resourceTypes = [XMLHTTPREQUEST] \<rparr>]
   \<and> snd (onMessage reject0 (SET_REQUEST_HEADERS ''https://api.x/?page=2'' [])
        (messages reject0 [SET_REQUEST_HEADERS ''https://api.x/v1'' [origin]] []))
     = Some \<lparr> success = False, r_error = Some ''no headers'' \<rparr>"
  by (simp add: messages_def onMessage_def updateSessionRules_def reject0_def ruleFor_def
      origin_def falsy_def)

text \<open>
  C8 as amended. The rule of a \<^verbatim>\<open>SET_REQUEST_HEADERS\<close> message has the fixed id 1, the
  priority 999, the URL up to its first question mark as filter, and one \<^verbatim>\<open>set\<close> operation
  per header of the message, in the order of the message, named by the \<^verbatim>\<open>key\<close> of the header
  (by its \<^verbatim>\<open>name\<close> when the key is absent or empty) and with its value. It is installed by
  one update that removes id 1 and adds the rule. In every rule set the listener reaches
  from the empty one at most one rule has id 1. When the host accepts the update, the rule
  of the message is the only rule afterwards and the answer is \<^verbatim>\<open>success: true\<close> (and whatever
  the rule set was before, exactly one rule with id 1 is active); when the host refuses
  it, the rule set stays as it was and the answer is \<^verbatim>\<open>success: false\<close> with the error. So
  two messages in a row leave the header list of the second in effect when the second is
  accepted, and the rule set the first one left when it is refused. A
  \<^verbatim>\<open>CLEAR_REQUEST_HEADERS\<close> message that the host accepts leaves no rule; a refused one
  leaves the rule set as it was and is not answered.
\<close>

theorem override_rule_single_slot:
  assumes "rules = messages reject ms []"
  shows "ruleFor u hs
         = \<lparr> r_id = 1, priority = 999, action_type = MODIFY_HEADERS,
             action_requestHeaders =
               map (\<lambda>h. \<lparr> m_header = (case kv_key h of
                                          None \<Rightarrow> kv_name h
                                        | Some k \<Rightarrow> if k = [] then kv_name h else Some k),
                           m_operation = SET, m_value = kv_value h \<rparr>) hs,
             urlFilter = takeWhile (\<lambda>x. x \<noteq> CHR ''?'') u,
             resourceTypes = [XMLHTTPREQUEST] \<rparr>
       \<and> CHR ''?'' \<notin> set (urlFilter (ruleFor u hs))
       \<and> length (filter (\<lambda>r. r_id r = 1) rules) \<le> 1
       \<and> (reject [ruleFor u hs] = None \<longrightarrow>
            onMessage reject (SET_REQUEST_HEADERS u hs) rules
              = ([ruleFor u hs], Some \<lparr> success = True, r_error = None \<rparr>)
            \<and> length (filter (\<lambda>r. r_id r = 1)
                 (fst (onMessage reject (SET_REQUEST_HEADERS u hs) anyrules))) = 1)
       \<and> (\<forall>err. reject [ruleFor u hs] = Some err \<longrightarrow>
            onMessage reject (SET_REQUEST_HEADERS u hs) anyrules
              = (anyrules, Some \<lparr> success = False, r_error = Some err \<rparr>))
       \<and> (reject [ruleFor u2 hs2] = None \<longrightarrow>
            messages reject (ms @ [SET_REQUEST_HEADERS u hs, SET_REQUEST_HEADERS u2 hs2]) []
              = [ruleFor u2 hs2])
       \<and> (\<forall>err. reject [ruleFor u2 hs2] = Some err \<longrightarrow>
            messages reject (ms @ [SET_REQUEST_HEADERS u hs, SET_REQUEST_HEADERS u2 hs2]) []
              = messages reject (ms @ [SET_REQUEST_HEADERS u hs]) [])
       \<and> (reject [] = None \<longrightarrow>
            onMessage reject CLEAR_REQUEST_HEADERS rules
              = ([], Some \<lparr> success = True, r_error = None \<rparr>))
       \<and> (\<forall>err. reject [] = Some err \<longrightarrow>
            onMessage reject CLEAR_REQUEST_HEADERS anyrules = (anyrules, None))"
proof -
  have inv: "(\<forall>r\<in>set (messages reject xs []). r_id r = 1) \<and> length (messages reject xs []) \<le> 1"
    for xs using messages_inv by simp
  have none: "filter (\<lambda>r. r_id r \<noteq> 1) (messages reject xs []) = []" for xs
    using inv[of xs] by (simp add: filter_empty_conv)
  have all: "filter (\<lambda>r. r_id r = 1) (messages reject xs []) = messages reject xs []" for xs
    using inv[of xs] by simp
  have shape: "ruleFor u hs
         = \<lparr> r_id = 1, priority = 999, action_type = MODIFY_HEADERS,
             action_requestHeaders =
               map (\<lambda>h. \<lparr> m_header = (case kv_key h of
                                          None \<Rightarrow> kv_name h
                                        | Some k \<Rightarrow> if k = [] then kv_name h else Some k),
                           m_operation = SET, m_value = kv_value h \<rparr>) hs,
             urlFilter = takeWhile (\<lambda>x. x \<noteq> CHR ''?'') u,
             resourceTypes = [XMLHTTPREQUEST] \<rparr>"
    by (auto simp: ruleFor_def split_str_first falsy_def split: option.splits)
  have q: "CHR ''?'' \<notin> set (urlFilter (ruleFor u hs))"
    by (auto simp: ruleFor_simps dest: set_takeWhileD)
  have one: "length (filter (\<lambda>r. r_id r = 1) rules) \<le> 1"
    using inv[of ms] assms by (simp add: all)
  have acc: "onMessage reject (SET_REQUEST_HEADERS u hs) rules
              = ([ruleFor u hs], Some \<lparr> success = True, r_error = None \<rparr>)
            \<and> length (filter (\<lambda>r. r_id r = 1)
                 (fst (onMessage reject (SET_REQUEST_HEADERS u hs) anyrules))) = 1"
    if "reject [ruleFor u hs] = None"
    using that none[of ms] assms
    by (simp add: onMessage_def updateSessionRules_def ruleFor_simps)
  have ref: "onMessage reject (SET_REQUEST_HEADERS u hs) anyrules
              = (anyrules, Some \<lparr> success = False, r_error = Some err \<rparr>)"
    if "reject [ruleFor u hs] = Some err" for err
    using that by (simp add: onMessage_def updateSessionRules_def)
  have two: "messages reject (ms @ [SET_REQUEST_HEADERS u hs, SET_REQUEST_HEADERS u2 hs2]) []
              = [ruleFor u2 hs2]"
    if "reject [ruleFor u2 hs2] = None"
  proof -
    have "messages reject (ms @ [SET_REQUEST_HEADERS u hs, SET_REQUEST_HEADERS u2 hs2]) []
        = fst (onMessage reject (SET_REQUEST_HEADERS u2 hs2)
            (messages reject (ms @ [SET_REQUEST_HEADERS u hs]) []))"
      using messages_snoc[of reject "ms @ [SET_REQUEST_HEADERS u hs]"] by simp
    then show ?thesis
      using that none[of "ms @ [SET_REQUEST_HEADERS u hs]"]
      by (simp add: onMessage_def updateSessionRules_def)
  qed
  have two': "messages reject (ms @ [SET_REQUEST_HEADERS u hs, SET_REQUEST_HEADERS u2 hs2]) []
              = messages reject (ms @ [SET_REQUEST_HEADERS u hs]) []"
    if "reject [ruleFor u2 hs2] = Some err" for err
  proof -
    have "messages reject (ms @ [SET_REQUEST_HEADERS u hs, SET_REQUEST_HEADERS u2 hs2]) []
        = fst (onMessage reject (SET_REQUEST_HEADERS u2 hs2)
            (messages reject (ms @ [SET_REQUEST_HEADERS u hs]) []))"
      using messages_snoc[of reject "ms @ [SET_REQUEST_HEADERS u hs]"] by simp
    then show ?thesis using that by (simp add: onMessage_def updateSessionRules_def)
  qed
  have clr: "onMessage reject CLEAR_REQUEST_HEADERS rules
              = ([], Some \<lparr> success = True, r_error = None \<rparr>)"
    if "reject [] = None"
    using that none[of ms] assms by (simp add: onMessage_def updateSessionRules_def)
  have clr': "onMessage reject CLEAR_REQUEST_HEADERS anyrules = (anyrules, None)"
    if "reject [] = Some err" for err
    using that by (simp add: onMessage_def updateSessionRules_def)
  show ?thesis
    apply (intro conjI impI allI)
    using shape q one acc ref two two' clr clr' by blast+
qed

text \<open>
  The amended claim at concrete inputs, with the example of the specification last: a
  rule for \<^verbatim>\<open>Origin\<close>, then one for \<^verbatim>\<open>Cookie\<close> on \<^verbatim>\<open>https://api.x/?page=2\<close>, which the host accepts,
  then the clearing message; and the answer to a message the host refuses.
\<close>

theorem override_rule_single_slot_witness:
  "messages reject0
     [SET_REQUEST_HEADERS ''https://api.x/v1'' [origin],
      SET_REQUEST_HEADERS ''https://api.x/?page=2'' [cookie]] []
     = [\<lparr> r_id = 1, priority = 999, action_type = MODIFY_HEADERS,
          action_requestHeaders =
            [\<lparr> m_header = Some ''Cookie'', m_operation = SET, m_value = Some ''a=b'' \<rparr>],
          urlFilter = ''https://api.x/'', resourceTypes = [XMLHTTPREQUEST] \<rparr>]
   \<and> onMessage reject0 CLEAR_REQUEST_HEADERS
       (messages reject0
          [SET_REQUEST_HEADERS ''https://api.x/v1'' [origin],
           SET_REQUEST_HEADERS ''https://api.x/?page=2'' [cookie]] [])
     = ([], Some \<lparr> success = True, r_error = None \<rparr>)
   \<and> onMessage reject0 (SET_REQUEST_HEADERS ''https://api.x/?page=2'' [])
       (messages reject0 [SET_REQUEST_HEADERS ''https://api.x/v1'' [origin]] [])
     = (messages reject0 [SET_REQUEST_HEADERS ''https://api.x/v1'' [origin]] [],
        Some \<lparr> success = False, r_error = Some ''no headers'' \<rparr>)"
proof -
  let ?m1 = "SET_REQUEST_HEADERS ''https://api.x/v1'' [origin]"
  let ?m2 = "SET_REQUEST_HEADERS ''https://api.x/?page=2'' [cookie]"
  let ?r2 = "\<lparr> r_id = 1, priority = 999, action_type = MODIFY_HEADERS,
          action_requestHeaders =
            [\<lparr> m_header = Some ''Cookie'', m_operation = SET, m_value = Some ''a=b'' \<rparr>],
          urlFilter = ''https://api.x/'', resourceTypes = [XMLHTTPREQUEST] \<rparr>"
  note T = override_rule_single_slot[OF refl, where reject = reject0 and ms = "[]"
      and u = "''https://api.x/v1''" and hs = "[origin]"
      and ?u2.0 = "''https://api.x/?page=2''" and ?hs2.0 = "[cookie]"]
  note C = override_rule_single_slot[OF refl, where reject = reject0 and ms = "[?m1, ?m2]"
      and u = "''https://api.x/?page=2''" and hs = "[cookie]"]
  note R = override_rule_single_slot[OF refl, where reject = reject0 and ms = "[]"
      and u = "''https://api.x/?page=2''" and hs = "[]"
      and anyrules = "messages reject0 [?m1] []"]
  have v: "ruleFor ''https://api.x/?page=2'' [cookie] = ?r2"
    using C by (simp add: cookie_def)
  have h2: "reject0 [ruleFor ''https://api.x/?page=2'' [cookie]] = None"
    unfolding v by (simp add: reject0_def)
  have h3: "reject0 [] = None"
    by (simp add: reject0_def)
  have h4: "reject0 [ruleFor ''https://api.x/?page=2'' []] = Some ''no headers''"
    by (simp add: reject0_def ruleFor_def)
  have a: "messages reject0 [?m1, ?m2] [] = ?r2 # []"
    using T h2 v by simp
  have c: "onMessage reject0 CLEAR_REQUEST_HEADERS (messages reject0 [?m1, ?m2] [])
      = ([], Some \<lparr> success = True, r_error = None \<rparr>)"
    using C h3 by blast
  have r: "onMessage reject0 (SET_REQUEST_HEADERS ''https://api.x/?page=2'' [])
       (messages reject0 [?m1] [])
     = (messages reject0 [?m1] [], Some \<lparr> success = False, r_error = Some ''no headers'' \<rparr>)"
    using R h4 by blast
  show ?thesis using a c r by simp
qed

subsection \<open>C5: which listeners read the recording toggle\<close>

text \<open>
  C5 as stated fails for the completed and errored listeners: \<^verbatim>\<open>onCompleted\<close> and
  \<^verbatim>\<open>onErrorOccurred\<close> never read the toggle. With recording switched off while request 7
  is pending, its completed event still writes the status into the entry and enqueues a
  snapshot.
\<close>

theorem completed_ignores_toggle:
  "\<not> isRecording paused
   \<and> enqueued paused = [1]
   \<and> enqueued (step host0 (Completed (req7\<lparr>statusCode := 200\<rparr>)) paused) = [1, 2]
   \<and> status (objs paused ! 0) = Some 0
   \<and> status (objs (step host0 (Completed (req7\<lparr>statusCode := 200\<rparr>)) paused) ! 0) = Some 200"
  by (simp add: engine_defs input_defs)

text \<open>
  C5 as amended. The begin, request-headers-sent and response-headers-received listeners
  do nothing but issue the read of the toggle (or nothing at all, when a filter rejects
  the event); when the toggle is false as the read's callback runs, the callback leaves
  the state as it is: pending table, heap, queue and store. The completed and errored
  listeners do not read the toggle; they are gated by the pending table: with no entry for
  the identifier they leave the state as it is.
\<close>

theorem toggle_or_entry_gate:
  "step h (BeforeRequest d) s \<in> {s, issue (GetRecording (CBeforeRequest d)) s}
   \<and> step h (BeforeSendHeaders d) s \<in> {s, issue (GetRecording (CBeforeSendHeaders d)) s}
   \<and> step h (HeadersReceived d) s \<in> {s, issue (GetRecording (CHeadersReceived d)) s}
   \<and> (k < length (inflight s) \<and> inflight s ! k = GetRecording c \<and> \<not> isRecording s \<longrightarrow>
        step h (Deliver k now) s = s\<lparr>inflight := without k (inflight s)\<rparr>)
   \<and> (pendingRequests s (requestId d) = None \<longrightarrow>
        step h (Completed d) s = s \<and> step h (ErrorOccurred d) s = s)"
  by (auto simp: step_def onBeforeRequest_def onBeforeSendHeaders_def onHeadersReceived_def
      callback_def onBeforeRequest_cb_def onBeforeSendHeaders_cb_def onHeadersReceived_cb_def
      onCompleted_def onErrorOccurred_def split: cont.splits)

text \<open>The amended claim at concrete inputs: a begin callback with recording off, and a
  completed event for a request that was never recorded.\<close>

theorem toggle_or_entry_gate_witness:
  "step host0 (Deliver 0 5) (run host0 [BeforeRequest req7] installed) = installed
   \<and> step host0 (Completed req7) installed = installed
   \<and> step host0 (ErrorOccurred req7) installed = installed"
proof -
  have h: "0 < length (inflight (run host0 [BeforeRequest req7] installed))
      \<and> inflight (run host0 [BeforeRequest req7] installed) ! 0 = GetRecording (CBeforeRequest req7)
      \<and> \<not> isRecording (run host0 [BeforeRequest req7] installed)
      \<and> (run host0 [BeforeRequest req7] installed)
           \<lparr>inflight := without 0 (inflight (run host0 [BeforeRequest req7] installed))\<rparr>
          = installed
      \<and> pendingRequests installed (requestId req7) = None"
    by (simp add: engine_defs input_defs)
  have a: "step host0 (Deliver 0 5) (run host0 [BeforeRequest req7] installed) = installed"
    using toggle_or_entry_gate[of host0 req7 "run host0 [BeforeRequest req7] installed" 0
        "CBeforeRequest req7" 5] h by simp
  have b: "step host0 (Completed req7) installed = installed
      \<and> step host0 (ErrorOccurred req7) installed = installed"
    using toggle_or_entry_gate[of host0 req7 installed 0 "CBeforeRequest req7" 5] h by simp
  show ?thesis using a b by simp
qed

subsection \<open>C9: the request body of a begin event\<close>

text \<open>
  C9 fails where it speaks of a decode failure. Lines 172 to 176 replace the body by the
  text \<^verbatim>\<open>[Binary Data]\<close> when \<^verbatim>\<open>decode\<close> throws, but the decoder is built without the option
  \<^verbatim>\<open>fatal\<close>, and such a decoder throws on no bytes at all: it puts U+FFFD in the text
  for every malformed sequence. Request 7 begins with the raw body C8 41, which is not
  UTF-8; the callback runs, the entry and the snapshot passed to the queue get the text
  U+FFFD A as request body, and the store ends with that text, not with the sentinel.
  The rest of the claim holds on this input: the event is processed and its snapshot
  forwarded; and bytes that are UTF-8 (C3 A9) are stored as the text they encode.
\<close>

theorem malformed_body_never_flagged:
  "decode host0 b \<noteq> None
   \<and> decode host0 (Some [0xC8, 0x41]) = Some (text_of [0xEF, 0xBF, 0xBD, 0x41])
   \<and> decode host0 (Some [0xC3, 0xA9]) = Some (text_of [0xC3, 0xA9])
   \<and> text_of [0xEF, 0xBF, 0xBD, 0x41] \<noteq> ''[Binary Data]''
   \<and> pendingRequests (run host0 binary_begin installed) ''7'' = Some 0
   \<and> enqueued (run host0 binary_begin installed) = [1]
   \<and> requestBody (deref (run host0 binary_begin installed) 0)
       = Some (BodyText (text_of [0xEF, 0xBF, 0xBD, 0x41]))
   \<and> requestBody (deref (run host0 binary_begin installed) 1)
       = Some (BodyText (text_of [0xEF, 0xBF, 0xBD, 0x41]))
   \<and> map requestBody (currentLogs (run host0 binary_begin installed))
       = [Some (BodyText (text_of [0xEF, 0xBF, 0xBD, 0x41]))]
   \<and> map requestBody (currentLogs (run host0 binary_begin installed))
       \<noteq> [Some (BodyText ''[Binary Data]'')]"
proof -
  have t: "text_of [0xEF, 0xBF, 0xBD, 0x41] \<noteq> ''[Binary Data]''"
    by (simp add: text_of_def)
  have d: "decode host0 (Some [0xC8, 0x41]) = Some (text_of [0xEF, 0xBF, 0xBD, 0x41])"
    by (simp add: host0_def utf8_decode_def replacement_def)
  have v: "decode host0 (Some [0xC3, 0xA9]) = Some (text_of [0xC3, 0xA9])"
    by (simp add: host0_def utf8_decode_def replacement_def)
  have p: "pendingRequests (run host0 binary_begin installed) ''7'' = Some 0"
    "enqueued (run host0 binary_begin installed) = [1]"
    by (simp_all add: engine_defs input_defs binary7_def binary_begin_def)
  have r: "requestBody (deref (run host0 binary_begin installed) 0)
       = Some (BodyText (text_of [0xEF, 0xBF, 0xBD, 0x41]))"
    "requestBody (deref (run host0 binary_begin installed) 1)
       = Some (BodyText (text_of [0xEF, 0xBF, 0xBD, 0x41]))"
    "map requestBody (currentLogs (run host0 binary_begin installed))
       = [Some (BodyText (text_of [0xEF, 0xBF, 0xBD, 0x41]))]"
    using d by (simp_all add: engine_defs req7_def binary7_def binary_begin_def)
  have n: "decode host0 b \<noteq> None"
    by (simp add: host0_def utf8_decode_def Let_def)
  show ?thesis using n t d v p r by simp
qed

subsection \<open>C1: one read-merge-write at a time, in the order of the queue\<close>

text \<open>
  C1. In every state reachable from the installed one, by any interleaving of listener
  calls, storage callbacks and timers: at most one read or write of \<^verbatim>\<open>logs\<close> is pending,
  and one is pending exactly when \<^verbatim>\<open>isSaving\<close> is set; with the flag released the queue is
  empty. The snapshots passed to \<^verbatim>\<open>saveLog\<close>, in the order of the calls, are the ones whose
  pass has ended, then the one in flight, then the queue; every snapshot is an object of
  its own. So a snapshot enqueued before another one is processed before it, and the
  stored list is what applying the processed snapshots one after the other, in the order
  they were enqueued, gives.
\<close>

theorem serializer_fifo_single_flight:
  assumes "s = run h es installed"
  shows "length (saving (inflight s)) \<le> 1
       \<and> (isSaving s \<longleftrightarrow> saving (inflight s) \<noteq> [])
       \<and> (\<not> isSaving s \<longrightarrow> saveQueue s = [])
       \<and> enqueued s = processed s @ saving (inflight s) @ saveQueue s
       \<and> distinct (enqueued s)
       \<and> (\<forall>i j. i < j \<and> j < length (enqueued s) \<and> enqueued s ! j \<in> set (processed s) \<longrightarrow>
             enqueued s ! i \<in> set (processed s))
       \<and> logs s = Some (foldl applyLog [] (map (deref s) (processed s)))"
proof -
  have q: "queue_ok s" using assms queue_ok_run by simp
  have st: "store_ok s" using assms store_ok_run by simp
  have d: "distinct (enqueued s)" using assms distinct_enqueued_run by simp
  have e: "enqueued s = processed s @ saving (inflight s) @ saveQueue s"
    using q by (simp add: queue_ok_def)
  have o: "enqueued s ! i \<in> set (processed s)"
    if "i < j" "j < length (enqueued s)" "enqueued s ! j \<in> set (processed s)" for i j
  proof -
    have "j < length (processed s)"
    proof (rule ccontr)
      assume n: "\<not> j < length (processed s)"
      then have "enqueued s ! j = (saving (inflight s) @ saveQueue s) ! (j - length (processed s))"
        by (subst e) (simp add: nth_append)
      moreover have "j - length (processed s) < length (saving (inflight s) @ saveQueue s)"
        using that(2) n by (subst (asm) e) simp
      ultimately have "enqueued s ! j \<in> set (saving (inflight s) @ saveQueue s)"
        by (metis nth_mem)
      moreover have "set (processed s) \<inter> set (saving (inflight s) @ saveQueue s) = {}"
        using d by (subst (asm) e) auto
      ultimately show False using that(3) by blast
    qed
    then have "i < length (processed s)" using that(1) by simp
    then have "enqueued s ! i = processed s ! i" by (subst e) (simp add: nth_append)
    then show ?thesis using \<open>i < length (processed s)\<close> by simp
  qed
  show ?thesis
    using q st d e o unfolding queue_ok_def store_ok_def
    by (auto split: if_splits)
qed

text \<open>
  The theorem at a concrete interleaving: the begin and the completed event of request
  7, the second snapshot enqueued while the first one is written.
\<close>

theorem serializer_fifo_single_flight_witness:
  "enqueued (run host0 [SetRecording True, BeforeRequest req7, Deliver 0 5, Deliver 0 6,
       Completed (req7\<lparr>statusCode := 200\<rparr>), Deliver 0 7, Deliver 0 8, Deliver 0 9] installed)
     = [1, 2]
   \<and> processed (run host0 [SetRecording True, BeforeRequest req7, Deliver 0 5, Deliver 0 6,
       Completed (req7\<lparr>statusCode := 200\<rparr>), Deliver 0 7, Deliver 0 8, Deliver 0 9] installed)
     = [1, 2]
   \<and> logs (run host0 [SetRecording True, BeforeRequest req7, Deliver 0 5, Deliver 0 6,
       Completed (req7\<lparr>statusCode := 200\<rparr>), Deliver 0 7, Deliver 0 8, Deliver 0 9] installed)
     = Some [rec7\<lparr>status := Some 200\<rparr>]"
proof -
  let ?es = "[SetRecording True, BeforeRequest req7, Deliver 0 5, Deliver 0 6,
       Completed (req7\<lparr>statusCode := 200\<rparr>), Deliver 0 7, Deliver 0 8, Deliver 0 9]"
  let ?s = "run host0 ?es installed"
  note T = serializer_fifo_single_flight[OF refl, of host0 ?es]
  have e: "enqueued ?s = [1, 2]" "\<not> isSaving ?s"
    by (simp_all add: engine_defs input_defs)
  have d: "map (deref ?s) [1, 2] = [rec7, rec7\<lparr>status := Some 200\<rparr>]"
    by (simp add: engine_defs input_defs)
  have p: "processed ?s = [1, 2]" using T e by auto
  have "(0::nat) < 1 \<and> 1 < length (enqueued ?s) \<and> enqueued ?s ! 1 \<in> set (processed ?s)
      \<and> enqueued ?s ! 0 \<in> set (processed ?s)"
    using T e p by simp
  have "logs ?s = Some (foldl applyLog [] (map (deref ?s) (processed ?s)))"
    using T by blast
  then have l: "logs ?s = Some [rec7\<lparr>status := Some 200\<rparr>]"
    unfolding p d
    by (simp add: applyLog_def mergeLog_def spread_def over_def falsy_def MAX_LOGS_def input_defs)
  show ?thesis using e p l by simp
qed

subsection \<open>C10: a queued snapshot is not touched by later events\<close>

text \<open>
  C10. \<^verbatim>\<open>saveLog\<close> enqueues a new object with the property values of the entry, header
  references included (a shallow copy), and leaves the entry as it was. Whatever happens
  afterwards, in any interleaving, the snapshot object keeps its property values, no
  header map that existed is written (the listeners store a new map and replace the
  reference), and the snapshot is never a pending entry; so what the snapshot serialises
  to stays what the entry was when it was enqueued. This holds for every snapshot passed
  to \<^verbatim>\<open>saveLog\<close>, in the queue or already taken from it.
\<close>

theorem queued_snapshot_unchanged:
  assumes "s = run h es installed" and "a \<in> set (enqueued s)"
  shows "set (saveQueue s) \<subseteq> set (enqueued s)
       \<and> objs (run h es' s) ! a = objs s ! a
       \<and> deref (run h es' s) a = deref s a
       \<and> (\<forall>r<length (hmaps s). hmaps (run h es' s) ! r = hmaps s ! r)
       \<and> (\<forall>rid. pendingRequests (run h es' s) rid \<noteq> Some a)
       \<and> (\<forall>rid p. pendingRequests s rid = Some p \<longrightarrow>
             enqueued (saveLog p s) = enqueued s @ [length (objs s)]
             \<and> length (objs s) \<noteq> p
             \<and> objs (saveLog p s) ! p = objs s ! p
             \<and> objs (saveLog p s) ! length (objs s) = objs s ! p
             \<and> deref (saveLog p s) (length (objs s)) = deref s p)"
proof -
  have ok: "heap_ok s" using assms(1) heap_ok_run by simp
  have q: "queue_ok s" using assms(1) queue_ok_run by simp
  from extends_run[OF ok, of h es']
  have ok': "heap_ok (run h es' s)" and ext: "extends s (run h es' s)" by auto
  have a': "a \<in> set (enqueued (run h es' s))" using ext assms(2) by (auto simp: extends_def)
  have c1: "set (saveQueue s) \<subseteq> set (enqueued s)" using queue_ok_subsets(2)[OF q] .
  have c2: "objs (run h es' s) ! a = objs s ! a" using ext assms(2) by (simp add: extends_def)
  have c3: "deref (run h es' s) a = deref s a" using deref_extends[OF ok ext assms(2)] .
  have c4: "\<forall>r<length (hmaps s). hmaps (run h es' s) ! r = hmaps s ! r"
    using ext by (simp add: extends_def)
  have c5: "\<forall>rid. pendingRequests (run h es' s) rid \<noteq> Some a"
    using ok' a' by (auto simp: heap_ok_def)
  have c6: "enqueued (saveLog p s) = enqueued s @ [length (objs s)]
             \<and> length (objs s) \<noteq> p
             \<and> objs (saveLog p s) ! p = objs s ! p
             \<and> objs (saveLog p s) ! length (objs s) = objs s ! p
             \<and> deref (saveLog p s) (length (objs s)) = deref s p"
    if "pendingRequests s rid = Some p" for rid p
  proof -
    have p: "p < length (objs s)" using heap_ok_pendingD[OF ok that] .
    then show ?thesis by (simp add: deref_def nth_append)
  qed
  show ?thesis using c1 c2 c3 c4 c5 c6 by blast
qed

text \<open>
  The theorem at a concrete input: the first snapshot of request 7 keeps status 0 and no
  request headers while the entry gets headers and status 200.
\<close>

theorem queued_snapshot_unchanged_witness:
  "deref (run host0
       [BeforeSendHeaders (req7\<lparr>d_requestHeaders :=
            Some [\<lparr> h_name = ''Authorization'', h_value = Some ''Bearer t'' \<rparr>]\<rparr>),
        Deliver 1 6, Completed (req7\<lparr>statusCode := 200\<rparr>)]
       (run host0 [SetRecording True, BeforeRequest req7, Deliver 0 5] installed)) 1 = rec7
   \<and> deref (run host0
       [BeforeSendHeaders (req7\<lparr>d_requestHeaders :=
            Some [\<lparr> h_name = ''Authorization'', h_value = Some ''Bearer t'' \<rparr>]\<rparr>),
        Deliver 1 6, Completed (req7\<lparr>statusCode := 200\<rparr>)]
       (run host0 [SetRecording True, BeforeRequest req7, Deliver 0 5] installed)) 0
     = rec7\<lparr>status := Some 200, requestHeaders := Some [(''Authorization'', ''Bearer t'')]\<rparr>"
proof -
  let ?es = "[SetRecording True, BeforeRequest req7, Deliver 0 5]"
  let ?es' = "[BeforeSendHeaders (req7\<lparr>d_requestHeaders :=
            Some [\<lparr> h_name = ''Authorization'', h_value = Some ''Bearer t'' \<rparr>]\<rparr>),
        Deliver 1 6, Completed (req7\<lparr>statusCode := 200\<rparr>)]"
  have h: "1 \<in> set (enqueued (run host0 ?es installed))"
    "deref (run host0 ?es installed) 1 = rec7"
    by (simp_all add: engine_defs input_defs)
  have a: "deref (run host0 ?es' (run host0 ?es installed)) 1 = rec7"
    using queued_snapshot_unchanged[OF refl h(1), of ?es'] h(2) by simp
  have b: "deref (run host0 ?es' (run host0 ?es installed)) 0
     = rec7\<lparr>status := Some 200, requestHeaders := Some [(''Authorization'', ''Bearer t'')]\<rparr>"
    by (simp add: engine_defs input_defs AList.update.simps)
  show ?thesis using a b by simp
qed

subsection \<open>C2: the stored record of one request\<close>

text \<open>
  C2 as stated fails: \<^verbatim>\<open>onCompleted\<close> acts only when the pending table has an entry for
  the identifier. With recording on and the filters passed, a completed event with status
  200 that comes before the begin callback of the same request is ignored, and the record
  stored in the end has status 0, not the value of the only event that set a status.
\<close>

theorem completed_before_begin_is_lost:
  "list_all (about ''7'') completed_first
   \<and> Completed (req7\<lparr>statusCode := 200\<rparr>) \<in> set completed_first
   \<and> \<not> isExtensionRequest host0 req7 \<and> isApiRequest req7
   \<and> isRecording (run host0 completed_first installed)
   \<and> \<not> isSaving (run host0 completed_first installed)
   \<and> inflight (run host0 completed_first installed) = []
   \<and> map log_id (currentLogs (run host0 completed_first installed)) = [''7'']
   \<and> map status (currentLogs (run host0 completed_first installed)) = [Some 0]"
  by (simp add: engine_defs input_defs about_def)

text \<open>
  C2 as amended. Take any interleaving of begin, headers-sent, headers-received and
  completed events of one identifier, of storage callbacks and of toggle writes, in which
  every listener body runs before the entry is purged: there is no errored event, and the
  timers fire only in a last phase \<open>es2\<close> of storage callbacks, timers and toggle writes
  that starts when no read of the toggle is pending. Look at a state where no save is in
  flight (then the queue is empty).

  Which events contribute, that is, have their listener body run: with recording switched
  on first and never off, exactly the begin and headers events that pass the filters (as
  multisets: the bodies run in the order the reads of the toggle are delivered, which is
  any order); and a completed event exactly when its type passes and a body ran before it
  arrives, for only then the pending table has the entry. The bodies that ran are events
  of the interleaving in any case.

  If a begin body with a non-empty URL ran, the store holds exactly one record, with the
  identifier, and it is the union of the fields the bodies set, in the order they ran:
  URL, method and type of the latest begin, the status of the latest completed event (0 if
  none), no error, and as header maps the key-wise merge of all headers seen, the last
  value seen for a key. If no such begin body ran, the store is empty.
\<close>

theorem stored_record_is_union:
  assumes "s1 = run h es1 installed" and "list_all (about i) es1"
    and "recordings (inflight s1) = []"
    and "list_all settling es2" and "s = run h es2 s1" and "\<not> isSaving s"
  shows "handled s = handled s1
       \<and> (\<forall>k d. (k, d) \<in> set (handled s) \<longrightarrow> event_of k d \<in> set es1 \<and> requestId d = i)
       \<and> (recording_on es1 \<longrightarrow>
            mset (filter (\<lambda>x. toggled (fst x)) (handled s)) = mset (reads h es1))
       \<and> (\<forall>n d. n < length es1 \<and> es1 ! n = Completed d \<longrightarrow>
             handled (run h (take (Suc n) es1) installed)
             = handled (run h (take n es1) installed)
               @ (if isApiRequest d \<and> handled (run h (take n es1) installed) \<noteq> []
                  then [(HCompleted, d)] else []))
       \<and> (\<forall>k c now s0. k < length (inflight s0) \<and> inflight s0 ! k = GetRecording c
               \<and> isRecording s0 \<longrightarrow>
             handled (step h (Deliver k now) s0) = handled s0 @ [(cont_kind c, cont_details c)])
       \<and> (if \<exists>d. (HBeforeRequest, d) \<in> set (handled s) \<and> d_url d \<noteq> []
          then \<exists>r. logs s = Some [r] \<and> log_id r = i \<and> union_of (handled s) r
          else logs s = Some [])
       \<and> map_of (assign m m') = map_of m ++ map_of (rev m')"
proof -
  have s: "s = run h (es1 @ es2) installed" using assms(1,5) by (simp add: run_append)
  have q: "queue_ok s" and st: "store_ok s"
    using s queue_ok_run store_ok_run by simp_all
  have c1: "correlated i s1" and src: "sourced (set es1) s1"
    using assms(1,2) correlated_run sourced_run by simp_all
  have t1: "settled i s1" using c1 assms(3) by (rule correlated_settled)
  from settled_run[OF assms(4) t1, of h]
  have t: "settled i s" and hd: "handled s = handled s1" using assms(5) by simp_all
  have e: "enqueued s = processed s" using q assms(6) by (simp add: queue_ok_def)
  have l: "logs s = Some (foldl applyLog [] (map (deref s) (enqueued s)))"
    using st e by (simp add: store_ok_def)
  have ch: "chain (map (deref s) (enqueued s))" using t by (simp add: settled_def)
  have b: "(\<exists>x\<in>set (enqueued s). \<not> falsy (url (deref s x)))
           \<longleftrightarrow> (\<exists>d. (HBeforeRequest, d) \<in> set (handled s) \<and> d_url d \<noteq> [])"
    using t by (simp add: settled_def)
  have f: "foldl applyLog [] (map (deref s) (enqueued s))
      = (if \<exists>d. (HBeforeRequest, d) \<in> set (handled s) \<and> d_url d \<noteq> []
         then [last (map (deref s) (enqueued s))] else [])"
    using fold_chain[OF ch] b by auto
  have a: "\<forall>k d. (k, d) \<in> set (handled s) \<longrightarrow> event_of k d \<in> set es1 \<and> requestId d = i"
  proof (intro allI impI)
    fix k d assume h: "(k, d) \<in> set (handled s)"
    then have ev: "event_of k d \<in> set es1" using src hd by (simp add: sourced_def)
    then have "about i (event_of k d)" using assms(2) by (simp add: list_all_iff)
    then have "requestId d = i" by (cases k) (simp_all add: about_def)
    then show "event_of k d \<in> set es1 \<and> requestId d = i" using ev by simp
  qed
  have m: "mset (filter (\<lambda>x. toggled (fst x)) (handled s)) = mset (reads h es1)"
    if "recording_on es1"
    using accounted_installed[OF that, of h] assms(1,3) hd by simp
  have cp: "\<forall>n d. n < length es1 \<and> es1 ! n = Completed d \<longrightarrow>
             handled (run h (take (Suc n) es1) installed)
             = handled (run h (take n es1) installed)
               @ (if isApiRequest d \<and> handled (run h (take n es1) installed) \<noteq> []
                  then [(HCompleted, d)] else [])"
    using completed_contributes[OF assms(2)] by blast
  have dl: "handled (step h (Deliver k now) s0) = handled s0 @ [(cont_kind c, cont_details c)]"
    if "k < length (inflight s0) \<and> inflight s0 ! k = GetRecording c \<and> isRecording s0"
    for k c now s0
    using that by (cases c) (simp_all add: step_def callback_def body_handled)
  have u: "\<exists>r. logs s = Some [r] \<and> log_id r = i \<and> union_of (handled s) r"
    if w: "\<exists>d. (HBeforeRequest, d) \<in> set (handled s) \<and> d_url d \<noteq> []"
  proof -
    have "handled s \<noteq> []" using w by auto
    then have ne: "enqueued s \<noteq> []" using t by (auto simp: settled_def)
    then have v: "union_exact (handled s) (deref s (last (enqueued s)))"
      "log_id (deref s (last (enqueued s))) = i"
      using t by (simp_all add: settled_def)
    have "last (map (deref s) (enqueued s)) = deref s (last (enqueued s))"
      using ne by (simp add: last_map)
    then have "logs s = Some [deref s (last (enqueued s))]" using l f w by simp
    then show ?thesis using v(2) union_exact_union[OF v(1)] by blast
  qed
  have n: "logs s = Some []" if "\<not> (\<exists>d. (HBeforeRequest, d) \<in> set (handled s) \<and> d_url d \<noteq> [])"
    using l f that by simp
  have r: "if \<exists>d. (HBeforeRequest, d) \<in> set (handled s) \<and> d_url d \<noteq> []
          then \<exists>r. logs s = Some [r] \<and> log_id r = i \<and> union_of (handled s) r
          else logs s = Some []"
    using u n by (simp split: if_splits)
  show ?thesis
    apply (intro conjI)
    using hd a m cp dl r map_of_assign by blast+
qed

text \<open>
  The amended claim at the example of the specification, followed by the timer that
  purges the entry: the record stays as it is, it is the union of the four events, and
  the three events that read the toggle are the bodies that ran before the completed one.
\<close>

theorem stored_record_is_union_witness:
  "logs (run host0 (example @ [Timeout 0]) installed) = Some [example_record]
   \<and> pendingRequests (run host0 example installed) ''7'' = Some 0
   \<and> pendingRequests (run host0 (example @ [Timeout 0]) installed) ''7'' = None
   \<and> union_of (handled (run host0 example installed)) example_record
   \<and> mset (filter (\<lambda>x. toggled (fst x)) (handled (run host0 example installed)))
       = mset [(HBeforeRequest, req7),
               (HBeforeSendHeaders, req7\<lparr>d_requestHeaders := Some [auth]\<rparr>),
               (HHeadersReceived, req7\<lparr>d_responseHeaders := Some [ctype]\<rparr>)]
   \<and> latest HCompleted statusCode (handled (run host0 example installed)) = Some 200"
proof -
  let ?s1 = "run host0 example installed"
  let ?s = "run host0 [Timeout 0] ?s1"
  have s: "run host0 (example @ [Timeout 0]) installed = ?s" by (simp add: run_append)
  have h: "list_all (about ''7'') example" "recordings (inflight ?s1) = []"
    "list_all settling [Timeout 0]" "\<not> isSaving ?s"
    by (simp_all add: engine_defs input_defs about_def)
  have on: "recording_on example" by (simp add: recording_on_def example_def)
  note T = stored_record_is_union[OF refl h(1,2,3) refl h(4), of "[]" "[]"]
  have hd: "handled ?s = handled ?s1" using T by blast
  have b: "(HBeforeRequest, req7) \<in> set (handled ?s1) \<and> d_url req7 \<noteq> []"
    by (simp add: engine_defs input_defs)
  have l: "logs ?s = Some [example_record]"
    by (simp add: engine_defs input_defs AList.update.simps)
  have p: "pendingRequests ?s1 ''7'' = Some 0" "pendingRequests ?s ''7'' = None"
    by (simp_all add: engine_defs input_defs)
  have "\<exists>r. logs ?s = Some [r] \<and> log_id r = ''7'' \<and> union_of (handled ?s) r"
    using T b hd by (auto split: if_splits)
  then have u: "union_of (handled ?s1) example_record" using l hd by auto
  then have "status example_record
      = Some (case latest HCompleted statusCode (handled ?s1) of None \<Rightarrow> 0 | Some c \<Rightarrow> c)"
    by (simp add: union_of_def)
  then have c: "latest HCompleted statusCode (handled ?s1) = Some 200"
    by (simp add: example_record_def latest_def engine_defs input_defs)
  have rd: "reads host0 example
      = [(HBeforeRequest, req7),
         (HBeforeSendHeaders, req7\<lparr>d_requestHeaders := Some [auth]\<rparr>),
         (HHeadersReceived, req7\<lparr>d_responseHeaders := Some [ctype]\<rparr>)]"
    by (simp add: reads_def example_def passes_def isExtensionRequest_def isApiRequest_def
        host0_def req7_def)
  have m: "mset (filter (\<lambda>x. toggled (fst x)) (handled ?s1)) = mset (reads host0 example)"
    using T on hd by simp
  show ?thesis unfolding s using l p u m c by (simp only: rd simp_thms)
qed

subsection \<open>C4: what changes the status\<close>

text \<open>
  C4 as stated fails: nothing in the script keeps a final status. Request 7 completes
  with 200 and is stored with status 200; after the timer has purged its entry, a begin
  event with the same identifier creates a new entry with status 0, and its snapshot,
  merged into the stored record, puts the status back to 0.
\<close>

theorem status_reverts_after_purge:
  "map log_id (currentLogs (run host0 done200 installed)) = [''7'']
   \<and> map status (currentLogs (run host0 done200 installed)) = [Some 200]
   \<and> map log_id (currentLogs (run host0 reborn installed)) = [''7'']
   \<and> map status (currentLogs (run host0 reborn installed)) = [Some 0]"
  by (simp add: engine_defs input_defs)

text \<open>
  C4 as amended. A pending entry is created with status 0. While the entry of an
  identifier is in the pending table, every step other than a completed or errored event
  of that identifier leaves the entry where it is and its status as it is. A completed
  event sets the status of the entry to its status code and passes a snapshot with that
  status on; an errored event passes a snapshot with status 0 and the error text on and
  removes the entry. A snapshot merged into the stored record of its identifier gives the
  record its status. So the status of a stored record goes from a final code back to 0
  only by an errored event, or by an event that comes after the entry was removed and
  creates it anew.
\<close>

theorem status_set_by_completion_events:
  assumes "s = run h es installed" and "pendingRequests s i = Some a"
  shows "((\<forall>d. (e = Completed d \<or> e = ErrorOccurred d) \<longrightarrow> requestId d \<noteq> i) \<longrightarrow>
            (\<forall>a'. pendingRequests (step h e s) i = Some a' \<longrightarrow>
               a' = a \<and> status (deref (step h e s) a) = status (deref s a)))
       \<and> (requestId d = i \<and> isApiRequest d \<longrightarrow>
            pendingRequests (step h (Completed d) s) i = Some a
            \<and> status (deref (step h (Completed d) s) a) = Some (statusCode d)
            \<and> (\<exists>c. enqueued (step h (Completed d) s) = enqueued s @ [c]
                 \<and> status (deref (step h (Completed d) s) c) = Some (statusCode d)))
       \<and> (requestId d = i \<and> isApiRequest d \<longrightarrow>
            pendingRequests (step h (ErrorOccurred d) s) i = None
            \<and> (\<exists>c. enqueued (step h (ErrorOccurred d) s) = enqueued s @ [c]
                 \<and> status (deref (step h (ErrorOccurred d) s) c) = Some 0
                 \<and> error (deref (step h (ErrorOccurred d) s) c) = Some (d_error d)))
       \<and> (pendingRequests s j = None \<longrightarrow>
            status (deref (snd (getOrCreatePending j now s)) (fst (getOrCreatePending j now s)))
              = Some 0)
       \<and> (findIndex (\<lambda>l. log_id l = log_id r) ls = Some k \<and> status r \<noteq> None \<longrightarrow>
            (\<exists>nl. mergeLog ls r = Some nl \<and> status (nl ! k) = status r))"
proof -
  have ok: "heap_ok s" using assms(1) heap_ok_run by simp
  have A: "(\<forall>d. (e = Completed d \<or> e = ErrorOccurred d) \<longrightarrow> requestId d \<noteq> i) \<longrightarrow>
            (\<forall>a'. pendingRequests (step h e s) i = Some a' \<longrightarrow>
               a' = a \<and> status (deref (step h e s) a) = status (deref s a))"
    using status_kept_step[OF ok assms(2)] by blast
  have B: "pendingRequests (step h (Completed d) s) i = Some a
            \<and> status (deref (step h (Completed d) s) a) = Some (statusCode d)
            \<and> (\<exists>c. enqueued (step h (Completed d) s) = enqueued s @ [c]
                 \<and> status (deref (step h (Completed d) s) c) = Some (statusCode d))"
    if t: "requestId d = i \<and> isApiRequest d"
  proof -
    have p: "pendingRequests s (requestId d) = Some a" using assms(2) t by simp
    from completed_effect[OF ok p] t obtain s1 where
      s': "onCompleted d s = s1\<lparr>timers := timers s1 @ [requestId d]\<rparr>"
      and rb: "ran_body s s1 (requestId d) a HCompleted d ((deref s a)\<lparr>status := Some (statusCode d)\<rparr>)"
      by auto
    show ?thesis using rb t unfolding ran_body_def by (auto simp: step_def s')
  qed
  have C: "pendingRequests (step h (ErrorOccurred d) s) i = None
            \<and> (\<exists>c. enqueued (step h (ErrorOccurred d) s) = enqueued s @ [c]
                 \<and> status (deref (step h (ErrorOccurred d) s) c) = Some 0
                 \<and> error (deref (step h (ErrorOccurred d) s) c) = Some (d_error d))"
    if t: "requestId d = i \<and> isApiRequest d"
  proof -
    have p: "pendingRequests s (requestId d) = Some a" using assms(2) t by simp
    from error_effect[OF ok p] t obtain s1 where
      s': "onErrorOccurred d s = s1\<lparr>pendingRequests := (pendingRequests s1)(requestId d := None)\<rparr>"
      and rb: "ran_body s s1 (requestId d) a HErrorOccurred d
          ((deref s a)\<lparr>status := Some 0, error := Some (d_error d)\<rparr>)"
      by auto
    show ?thesis using rb t unfolding ran_body_def by (auto simp: step_def s')
  qed
  have D: "status (deref (snd (getOrCreatePending j now s)) (fst (getOrCreatePending j now s)))
              = Some 0" if n: "pendingRequests s j = None"
  proof -
    obtain b s1 where g: "getOrCreatePending j now s = (b, s1)" by fastforce
    have "deref s1 b = fresh j now"
      using getOrCreatePending_value(1)[OF ok g] n by (simp add: entry_def)
    then show ?thesis using g by (simp add: fresh_def)
  qed
  have E: "\<exists>nl. mergeLog ls r = Some nl \<and> status (nl ! k) = status r"
    if t: "findIndex (\<lambda>l. log_id l = log_id r) ls = Some k \<and> status r \<noteq> None"
  proof -
    have k: "k < length ls" using findIndex_Some[of _ ls k] t by blast
    have "status (spread (ls ! k) r) = status r"
      using t by (auto simp: spread_def over_def)
    then show ?thesis using t k by (simp add: mergeLog_def)
  qed
  show ?thesis using A B C D E by blast
qed

text \<open>The amended claim at concrete inputs, with request 7 begun: a headers event keeps
  the status, completed sets 200, errored removes the entry, a new entry starts at 0, and a
  merge gives the stored record the status of the snapshot.\<close>

theorem status_set_by_completion_events_witness:
  "pendingRequests begun ''7'' = Some 0
   \<and> status (deref (step host0 (HeadersReceived req7) begun) 0) = status (deref begun 0)
   \<and> status (deref (step host0 (Completed (req7\<lparr>statusCode := 200\<rparr>)) begun) 0) = Some 200
   \<and> pendingRequests (step host0 (ErrorOccurred (req7\<lparr>statusCode := 200\<rparr>)) begun) ''7'' = None
   \<and> status (deref (snd (getOrCreatePending ''8'' 9 begun)) (fst (getOrCreatePending ''8'' 9 begun)))
       = Some 0
   \<and> (\<exists>nl. mergeLog [rec7] (rec7\<lparr>status := Some 200\<rparr>) = Some nl \<and> status (nl ! 0) = Some 200)"
proof -
  let ?d = "req7\<lparr>statusCode := 200\<rparr>"
  let ?r = "rec7\<lparr>status := Some 200\<rparr>"
  have b: "begun = run host0 [SetRecording True, BeforeRequest req7, Deliver 0 5] installed"
    by (simp add: begun_def)
  have p: "pendingRequests begun ''7'' = Some 0"
    by (simp add: engine_defs input_defs)
  note T = status_set_by_completion_events[OF b p,
      of "HeadersReceived req7" ?d "''8''" 9 ?r "[rec7]" 0]
  have h: "\<forall>d. (HeadersReceived req7 = Completed d \<or> HeadersReceived req7 = ErrorOccurred d)
        \<longrightarrow> requestId d \<noteq> ''7''"
    "pendingRequests (step host0 (HeadersReceived req7) begun) ''7'' = Some 0"
    "requestId ?d = ''7'' \<and> isApiRequest ?d"
    "pendingRequests begun ''8'' = None"
    "findIndex (\<lambda>l. log_id l = log_id ?r) [rec7] = Some 0 \<and> status ?r \<noteq> None"
    by (simp_all add: engine_defs input_defs)
  have c1: "status (deref (step host0 (HeadersReceived req7) begun) 0) = status (deref begun 0)"
    using T h(1,2) by blast
  have c2: "status (deref (step host0 (Completed ?d) begun) 0) = Some 200"
    using T h(3) by simp
  have c3: "pendingRequests (step host0 (ErrorOccurred ?d) begun) ''7'' = None"
    using T h(3) by blast
  have c4: "status (deref (snd (getOrCreatePending ''8'' 9 begun)) (fst (getOrCreatePending ''8'' 9 begun)))
       = Some 0"
    using T h(4) by blast
  have c5: "\<exists>nl. mergeLog [rec7] ?r = Some nl \<and> status (nl ! 0) = Some 200"
    using T h(5) by simp
  show ?thesis using p c1 c2 c3 c4 c5 by blast
qed

subsection \<open>C6: the removal of the entry after the last event\<close>

text \<open>
  C6 holds on the completed path and fails on the errored one: \<^verbatim>\<open>onCompleted\<close> leaves the
  entry in the pending table and schedules its removal, \<^verbatim>\<open>onErrorOccurred\<close> deletes the
  entry in the listener and schedules nothing. With the response headers of request 7
  stored and a headers-sent event waiting for its read of the toggle, the errored event
  removes the entry at once; the late callback then works on a new, empty entry, and its
  snapshot replaces the stored response headers by the empty map. After a completed
  event instead, the late callback merges into the entry that is still there and nothing
  is lost.
\<close>

theorem errored_entry_deleted_at_once:
  "pendingRequests (run host0 received installed) ''7'' = Some 0
   \<and> pendingRequests (step host0 (ErrorOccurred (req7\<lparr>d_error := ''net::ERR_FAILED''\<rparr>))
        (run host0 received installed)) ''7'' = None
   \<and> timers (step host0 (ErrorOccurred (req7\<lparr>d_error := ''net::ERR_FAILED''\<rparr>))
        (run host0 received installed)) = []
   \<and> pendingRequests (step host0 (Completed (req7\<lparr>statusCode := 200\<rparr>))
        (run host0 received installed)) ''7'' = Some 0
   \<and> timers (step host0 (Completed (req7\<lparr>statusCode := 200\<rparr>))
        (run host0 received installed)) = [''7'']
   \<and> map responseHeaders (currentLogs (run host0 received installed))
       = [Some [(''Content-Type'', ''application/json'')]]
   \<and> map responseHeaders (currentLogs (run host0 late_after_error installed)) = [Some []]
   \<and> pendingRequests (run host0 late_after_error installed) ''7'' = Some 4
   \<and> map responseHeaders (currentLogs (run host0 late_after_completed installed))
       = [Some [(''Content-Type'', ''application/json'')]]
   \<and> pendingRequests (run host0 late_after_completed installed) ''7'' = Some 0"
  by (simp add: engine_defs input_defs AList.update.simps)

end
